theory Spec2Isabelle
  imports Main "HOL-Library.AList"
begin

section \<open>Values and plain objects\<close>

text \<open>
  The JavaScript values a cell or a key can hold are the primitives, and the members of
  \<open>Object.prototype\<close>, which a read by name finds on a record that has no property of
  that name: \<open>VBuiltin n\<close> is the member under the name \<open>n\<close>, a built-in function
  or, for \<open>__proto__\<close>, the prototype object itself. Numbers are modelled as integers
  (no fractions, no NaN, no infinities); strings as byte strings. A \<open>Map\<close> key is
  compared by SameValueZero, which on these values is structural equality.
\<close>

datatype val = VUndef | VNull | VBool bool | VNum int | VStr string | VBuiltin string

text \<open>
  A plain object is the list of its own enumerable properties in insertion order, every
  name at most once. \<open>AList.update\<close> is the assignment \<open>o[k] = v\<close>: an existing
  property keeps its place, a new one goes last.
\<close>

type_synonym obj = "(string \<times> val) list"

text \<open>The object has the property itself.\<close>

definition has_own :: "string \<Rightarrow> obj \<Rightarrow> bool" where
  "has_own c d = (map_of d c \<noteq> None)"

text \<open>
  What every object inherits: the properties of \<open>Object.prototype\<close>. The name
  \<open>__proto__\<close> is modelled as far as it is tested and read; a column or an own
  property of a record with that name is outside the model, since an assignment to it
  makes no property.
\<close>

definition Object_prototype :: obj where
  "Object_prototype =
     map (\<lambda>n. (n, VBuiltin n))
       [''constructor'', ''__defineGetter__'', ''__defineSetter__'', ''hasOwnProperty'',
        ''__lookupGetter__'', ''__lookupSetter__'', ''isPrototypeOf'',
        ''propertyIsEnumerable'', ''toString'', ''valueOf'', ''__proto__'',
        ''toLocaleString'']"

text \<open>\<open>col in data\<close>: the property is the object's own or inherited.\<close>

definition has_prop :: "string \<Rightarrow> obj \<Rightarrow> bool" where
  "has_prop c d = (has_own c d \<or> has_own c Object_prototype)"

text \<open>
  \<open>data[col]\<close>: the own property, else the inherited one; a property that is
  neither reads as \<open>undefined\<close>.
\<close>

definition get_prop :: "obj \<Rightarrow> string \<Rightarrow> val" where
  "get_prop d c =
     (case map_of d c of
        Some v \<Rightarrow> v
      | None \<Rightarrow> (case map_of Object_prototype c of Some v \<Rightarrow> v | None \<Rightarrow> VUndef))"

text \<open>
  A \<open>Set\<close> of rows is the list of its members in insertion order.
\<close>

definition set_add :: "'a \<Rightarrow> 'a list \<Rightarrow> 'a list" where
  "set_add x xs = (if x \<in> set xs then xs else xs @ [x])"

definition set_delete :: "'a \<Rightarrow> 'a list \<Rightarrow> 'a list" where
  "set_delete x xs = removeAll x xs"

section \<open>The keyed table\<close>

subsection \<open>Errors\<close>

text \<open>
  Every \<open>assert\<close> of the source throws an \<open>Error\<close> with a message; the constructors
  below are those messages. \<open>TypeError\<close> is the built-in error of a write to a
  read-only or absent property of a sealed row, or of a method call on the wrong kind
  of object.
\<close>

datatype error =
    KeyNotSupplied string
  | MissingKey string
  | DuplicateKey
  | NotCurrentRow
  | TypeError

subsection \<open>State\<close>

text \<open>
  A \<open>Row\<close> is an object with identity: it is modelled as its position in the store
  \<open>heap\<close>, which holds the fields of every row the table has constructed. The fields
  are the row's own properties, one for each declared column. What a row inherits from
  \<open>Row.prototype\<close> on the way to \<open>Object.prototype\<close> (its constructor, \<open>set\<close>
  and \<open>delete\<close>) is not modelled: the table reads a row by name at declared columns
  and at key columns only, so it would be looked at only for a key column that is not
  a declared column. The composite-key index is a \<open>Map\<close> whose values are
  \<open>Map\<close>s again, down to the rows.
\<close>

type_synonym rid = nat

datatype ix = IxRow rid | IxMap "(val \<times> ix) list"

record table =
  columns :: "(string \<times> string) list"
  key :: "string list"
  heap :: "obj list"
  all :: "rid list"
  index :: "(val \<times> ix) list"
  untouched :: "rid list"
  added :: "rid list"
  changed :: "rid list"
  deleted :: "rid list"
  needSort :: bool

text \<open>The fields of a row; a position outside the store has none.\<close>

definition row_fields :: "table \<Rightarrow> rid \<Rightarrow> obj" where
  "row_fields t r = (if r < length (heap t) then heap t ! r else [])"

definition resetChanges :: "table \<Rightarrow> table" where
  "resetChanges t = t\<lparr>untouched := all t, added := [], changed := [], deleted := []\<rparr>"

definition clear :: "table \<Rightarrow> table" where
  "clear t = resetChanges (t\<lparr>all := [], index := []\<rparr>)"

text \<open>
  The constructor, after the column and key strings have been parsed: \<open>cols\<close> is the
  parsed column object (name and type), \<open>k\<close> the parsed key. \<open>#needSort\<close> starts
  undefined, which is falsy.
\<close>

definition new_Table :: "(string \<times> string) list \<Rightarrow> string list \<Rightarrow> table" where
  "new_Table cols k =
     clear \<lparr>columns = cols, key = k, heap = [], all = [], index = [],
            untouched = [], added = [], changed = [], deleted = [], needSort = False\<rparr>"

subsection \<open>Row construction\<close>

text \<open>
  \<open>keys.forEach\<close> of the \<open>Row\<close> constructor: each key column must be a property of
  \<open>data\<close>. \<open>defs\<close> is a plain object with a descriptor for each declared column:
  for a key column that is not declared, \<open>defs[col]\<close> is \<open>undefined\<close> and marking
  it read-only fails as a \<open>TypeError\<close>, unless the name is inherited.
\<close>

fun Row_keys :: "string list \<Rightarrow> string list \<Rightarrow> obj \<Rightarrow> error option" where
  "Row_keys cols [] data = None"
| "Row_keys cols (c # cs) data =
     (if \<not> has_prop c data then Some (MissingKey c)
      else if c \<notin> set cols \<and> \<not> has_own c Object_prototype then Some TypeError
      else Row_keys cols cs data)"

definition new_Row :: "obj \<Rightarrow> string list \<Rightarrow> string list \<Rightarrow> error + obj" where
  "new_Row data cols keys =
     (case Row_keys cols keys data of
        Some e \<Rightarrow> Inl e
      | None \<Rightarrow> Inr (map (\<lambda>c. (c, get_prop data c)) cols))"

subsection \<open>The composite-key index\<close>

text \<open>
  \<open>#addToIndex\<close>. The loop counter \<open>--nKey\<close> is zero exactly at the last key column,
  which is \<open>cols = []\<close> here. The function returns the index as the loop leaves it,
  also when it throws. A row where a \<open>Map\<close> is expected has no \<open>get\<close> or \<open>has\<close>
  method: the next round throws a \<open>TypeError\<close> after its own assertion.
\<close>

fun addToIndex ::
  "string list \<Rightarrow> obj \<Rightarrow> rid \<Rightarrow> (val \<times> ix) list \<Rightarrow> error option \<times> (val \<times> ix) list"
where
  "addToIndex [] data row m = (None, m)"
| "addToIndex (col # cols) data row m =
     (if \<not> has_prop col data then (Some (KeyNotSupplied col), m)
      else
        let k = get_prop data col in
        if cols = [] then
          (if map_of m k \<noteq> None then (Some DuplicateKey, m)
           else (None, AList.update k (IxRow row) m))
        else
          (case map_of m k of
             None \<Rightarrow>
               (case addToIndex cols data row [] of
                  (e, sub) \<Rightarrow> (e, AList.update k (IxMap sub) m))
           | Some (IxMap sub0) \<Rightarrow>
               (case addToIndex cols data row sub0 of
                  (e, sub) \<Rightarrow> (e, AList.update k (IxMap sub) m))
           | Some (IxRow r) \<Rightarrow>
               (if \<not> has_prop (hd cols) data then (Some (KeyNotSupplied (hd cols)), m)
                else (Some TypeError, m))))"

text \<open>
  \<open>#seek\<close>, started at the node \<open>ix\<close>. What it returns is whatever the last
  \<open>Map\<close> holds under the last key value, or nothing (\<open>null\<close>).
\<close>

fun seek :: "string list \<Rightarrow> obj \<Rightarrow> ix \<Rightarrow> error + ix option" where
  "seek [] keyData n = Inr None"
| "seek (col # cols) keyData n =
     (if \<not> has_prop col keyData then Inl (KeyNotSupplied col)
      else
        (case n of
           IxRow r \<Rightarrow> Inl TypeError
         | IxMap m \<Rightarrow>
             (case map_of m (get_prop keyData col) of
                None \<Rightarrow> Inr None
              | Some n' \<Rightarrow> if cols = [] then Inr (Some n') else seek cols keyData n')))"

text \<open>
  \<open>#removeFromIndex\<close>. The last \<open>Map\<close> loses the entry; the \<open>Map\<close>s above it stay,
  also when they become empty. A row where a \<open>Map\<close> is expected is answered with a
  \<open>TypeError\<close> after the next round's assertion.
\<close>

fun removeFromIndex ::
  "string list \<Rightarrow> obj \<Rightarrow> (val \<times> ix) list \<Rightarrow> (error + bool) \<times> (val \<times> ix) list"
where
  "removeFromIndex [] keyData m = (Inr False, m)"
| "removeFromIndex (col # cols) keyData m =
     (if \<not> has_prop col keyData then (Inl (KeyNotSupplied col), m)
      else
        let k = get_prop keyData col in
        if cols = [] then (Inr (map_of m k \<noteq> None), AList.delete k m)
        else
          (case map_of m k of
             None \<Rightarrow> (Inr False, m)
           | Some (IxMap sub0) \<Rightarrow>
               (case removeFromIndex cols keyData sub0 of
                  (res, sub) \<Rightarrow> (res, AList.update k (IxMap sub) m))
           | Some (IxRow r) \<Rightarrow>
               (if \<not> has_prop (hd cols) keyData then (Inl (KeyNotSupplied (hd cols)), m)
                else (Inl TypeError, m))))"

subsection \<open>add, update, delete, find, get\<close>

text \<open>
  \<open>add\<close>: the row is constructed, put into \<open>#all\<close> and \<open>#added\<close>, and only then
  indexed; \<open>#needSort\<close> is set after the indexing. The state returned with an error
  is the state at the throw.
\<close>

definition add :: "obj \<Rightarrow> table \<Rightarrow> (error + rid) \<times> table" where
  "add data t =
     (case new_Row data (map fst (columns t)) (key t) of
        Inl e \<Rightarrow> (Inl e, t)
      | Inr flds \<Rightarrow>
          let row = length (heap t);
              t1 = t\<lparr>heap := heap t @ [flds]\<rparr>;
              t2 = t1\<lparr>all := set_add row (all t1)\<rparr>;
              t3 = t2\<lparr>added := set_add row (added t2)\<rparr>
          in (case addToIndex (key t3) flds row (index t3) of
                (Some e, m) \<Rightarrow> (Inl e, t3\<lparr>index := m\<rparr>)
              | (None, m) \<Rightarrow> (Inr row, t3\<lparr>index := m, needSort := True\<rparr>)))"

text \<open>\<open>{ ...row, ...data }\<close>\<close>

definition spread :: "obj \<Rightarrow> obj \<Rightarrow> obj" where
  "spread flds data = fold (\<lambda>(k, v) acc. AList.update k v acc) data flds"

text \<open>
  The deep equality of the \<open>equal\<close> package on two plain objects whose values are
  primitives or built-ins: the same property names with the same values.
\<close>

definition equal :: "obj \<Rightarrow> obj \<Rightarrow> bool" where
  "equal a b = list_all (\<lambda>k. map_of a k = map_of b k) (map fst a @ map fst b)"

text \<open>
  \<open>Object.assign(row, data)\<close> on a row: the properties of \<open>data\<close> are written in
  order. A row is not extensible and its key properties are read-only, so a write to a
  key column or to a name the row does not have itself throws a \<open>TypeError\<close>; the
  writes made before it stay.
\<close>

fun assign :: "string list \<Rightarrow> obj \<Rightarrow> obj \<Rightarrow> error option \<times> obj" where
  "assign keys flds [] = (None, flds)"
| "assign keys flds ((k, v) # rest) =
     (if has_own k flds \<and> k \<notin> set keys
      then assign keys (AList.update k v flds) rest
      else (Some TypeError, flds))"

definition update :: "rid \<Rightarrow> obj \<Rightarrow> table \<Rightarrow> (error + rid) \<times> table" where
  "update row data t =
     (if row \<notin> set (all t) then (Inl NotCurrentRow, t)
      else
        let flds = row_fields t row in
        if equal flds (spread flds data) then (Inr row, t)
        else
          (case assign (key t) flds data of
             (e, flds') \<Rightarrow>
               let t1 = t\<lparr>heap := (heap t)[row := flds']\<rparr> in
               (case e of
                  Some err \<Rightarrow> (Inl err, t1)
                | None \<Rightarrow>
                    let t2 = t1\<lparr>untouched := set_delete row (untouched t1)\<rparr>;
                        t3 = (if row \<in> set (added t2) then t2
                              else t2\<lparr>changed := set_add row (changed t2)\<rparr>)
                    in (Inr row, t3))))"

text \<open>\<open>delete_\<close>, installed as \<open>delete\<close>; it returns \<open>null\<close>.\<close>

definition delete_row :: "rid \<Rightarrow> table \<Rightarrow> (error + unit) \<times> table" where
  "delete_row row t =
     (if row \<notin> set (all t) then (Inl NotCurrentRow, t)
      else
        let t1 = t\<lparr>all := set_delete row (all t)\<rparr>;
            t2 = t1\<lparr>deleted := set_add row (deleted t1)\<rparr>;
            t3 = t2\<lparr>added := set_delete row (added t2)\<rparr>;
            t4 = t3\<lparr>changed := set_delete row (changed t3)\<rparr>;
            t5 = t4\<lparr>untouched := set_delete row (untouched t4)\<rparr>
        in (case removeFromIndex (key t5) (row_fields t5 row) (index t5) of
              (Inl e, m) \<Rightarrow> (Inl e, t5\<lparr>index := m\<rparr>)
            | (Inr removed, m) \<Rightarrow> (Inr (), t5\<lparr>index := m\<rparr>)))"

definition find :: "obj \<Rightarrow> table \<Rightarrow> error + ix option" where
  "find keyData t = seek (key t) keyData (IxMap (index t))"

text \<open>\<open>get_\<close>, installed as \<open>get\<close>: \<open>find\<close>, and \<open>add\<close> when it finds nothing.\<close>

definition get_row :: "obj \<Rightarrow> table \<Rightarrow> (error + ix) \<times> table" where
  "get_row keyData t =
     (case find keyData t of
        Inl e \<Rightarrow> (Inl e, t)
      | Inr (Some n) \<Rightarrow> (Inr n, t)
      | Inr None \<Rightarrow>
          (case add keyData t of
             (Inl e, t') \<Rightarrow> (Inl e, t')
           | (Inr row, t') \<Rightarrow> (Inr (IxRow row), t')))"

subsection \<open>Reading the rows in key order\<close>

text \<open>
  The relational operator \<open><\<close>. An object is first converted to a primitive, which
  for a built-in function is its source text and for \<open>Object.prototype\<close> the string
  \<open>[object Object]\<close>. Then two strings compare by their code units, anything else as
  numbers, where \<open>undefined\<close> and a string that is not a number are NaN and compare
  false. The conversion of a string to a number is a parameter of the model, \<open>sn\<close>,
  with \<open>None\<close> for NaN.
\<close>

definition builtin_text :: "string \<Rightarrow> string" where
  "builtin_text n =
     (if n = ''__proto__'' then ''[object Object]''
      else ''function '' @ (if n = ''constructor'' then ''Object'' else n)
             @ ''() { [native code] }'')"

fun to_primitive :: "val \<Rightarrow> val" where
  "to_primitive (VBuiltin n) = VStr (builtin_text n)"
| "to_primitive v = v"

fun str_lt :: "string \<Rightarrow> string \<Rightarrow> bool" where
  "str_lt [] [] = False"
| "str_lt [] (y # ys) = True"
| "str_lt (x # xs) [] = False"
| "str_lt (x # xs) (y # ys) =
     ((of_char x :: nat) < of_char y \<or> (x = y \<and> str_lt xs ys))"

fun to_number :: "(string \<Rightarrow> int option) \<Rightarrow> val \<Rightarrow> int option" where
  "to_number sn VUndef = None"
| "to_number sn VNull = Some 0"
| "to_number sn (VBool b) = Some (if b then 1 else 0)"
| "to_number sn (VNum n) = Some n"
| "to_number sn (VStr s) = sn s"
| "to_number sn (VBuiltin n) = sn (builtin_text n)"

fun lt_primitive :: "(string \<Rightarrow> int option) \<Rightarrow> val \<Rightarrow> val \<Rightarrow> bool" where
  "lt_primitive sn (VStr a) (VStr b) = str_lt a b"
| "lt_primitive sn a b =
     (case (to_number sn a, to_number sn b) of
        (Some x, Some y) \<Rightarrow> x < y
      | _ \<Rightarrow> False)"

definition js_lt :: "(string \<Rightarrow> int option) \<Rightarrow> val \<Rightarrow> val \<Rightarrow> bool" where
  "js_lt sn a b = lt_primitive sn (to_primitive a) (to_primitive b)"

text \<open>The comparator that \<open>#makeSortFn\<close> builds for the key.\<close>

fun sortFn :: "(string \<Rightarrow> int option) \<Rightarrow> string list \<Rightarrow> obj \<Rightarrow> obj \<Rightarrow> int" where
  "sortFn sn [] a b = 0"
| "sortFn sn (col # cols) a b =
     (let va = get_prop a col; vb = get_prop b col in
      if js_lt sn va vb then - 1
      else if js_lt sn vb va then 1
      else sortFn sn cols a b)"

text \<open>
  \<open>Array.prototype.sort\<close> with a comparator is stable, and with a consistent
  comparator its result is the one of any stable sort: it is modelled as insertion
  sort, each element going behind the elements that are not greater.
\<close>

fun insert_by :: "('a \<Rightarrow> 'a \<Rightarrow> int) \<Rightarrow> 'a \<Rightarrow> 'a list \<Rightarrow> 'a list" where
  "insert_by cmp x [] = [x]"
| "insert_by cmp x (y # ys) =
     (if cmp x y < 0 then x # y # ys else y # insert_by cmp x ys)"

definition sort_by :: "('a \<Rightarrow> 'a \<Rightarrow> int) \<Rightarrow> 'a list \<Rightarrow> 'a list" where
  "sort_by cmp xs = fold (insert_by cmp) xs []"

text \<open>
  The getter \<open>data\<close>: it sorts \<open>#all\<close> when \<open>#needSort\<close> is set. The sorted
  array comes from a \<open>Set\<close>, so the \<open>Set\<close> built from it has the same members in
  the same order.
\<close>

definition data :: "(string \<Rightarrow> int option) \<Rightarrow> table \<Rightarrow> rid list \<times> table" where
  "data sn t =
     (let t' = (if needSort t
                then t\<lparr>all := sort_by (\<lambda>a b. sortFn sn (key t) (row_fields t a) (row_fields t b))
                                (all t),
                       needSort := False\<rparr>
                else t)
      in (all t', t'))"

text \<open>The getter \<open>changes\<close>: copies of the four sets.\<close>

definition changes :: "table \<Rightarrow> rid list \<times> rid list \<times> rid list \<times> rid list" where
  "changes t = (added t, changed t, deleted t, untouched t)"

subsection \<open>Serialize and load\<close>

text \<open>
  The type registry \<open>Table.#types\<close> gives each type name its optional hooks. The
  constructor rejects a column whose type is not registered and no type is ever
  removed, so the registry is a total function on the types a table uses. The column
  names of a table are the property names of one object, hence distinct, and the
  objects built column by column are written as a \<open>map\<close> over them.
\<close>

record hooks =
  serialize_hook :: "(val \<Rightarrow> val) option"
  deserialize_hook :: "(val \<Rightarrow> val) option"

text \<open>\<open>fn ? fn(x) : x\<close>\<close>

definition apply_hook :: "(val \<Rightarrow> val) option \<Rightarrow> val \<Rightarrow> val" where
  "apply_hook h x = (case h of Some fn \<Rightarrow> fn x | None \<Rightarrow> x)"

definition serialize_row :: "(string \<Rightarrow> hooks) \<Rightarrow> (string \<times> string) list \<Rightarrow> obj \<Rightarrow> obj" where
  "serialize_row types cols row =
     map (\<lambda>(col, ty). (col, apply_hook (serialize_hook (types ty)) (get_prop row col))) cols"

definition deserialize :: "(string \<Rightarrow> hooks) \<Rightarrow> (string \<times> string) list \<Rightarrow> obj \<Rightarrow> obj" where
  "deserialize types cols ob =
     map (\<lambda>(col, ty). (col, apply_hook (deserialize_hook (types ty)) (get_prop ob col))) cols"

definition serialize ::
  "(string \<Rightarrow> int option) \<Rightarrow> (string \<Rightarrow> hooks) \<Rightarrow> table \<Rightarrow> obj list \<times> table" where
  "serialize sn types t =
     (case data sn t of
        (rows, t') \<Rightarrow> (map (\<lambda>row. serialize_row types (columns t') (row_fields t' row)) rows, t'))"

text \<open>\<open>data.forEach(obj => this.add(...))\<close>: the first error ends the loop.\<close>

fun load_each :: "(string \<Rightarrow> hooks) \<Rightarrow> obj list \<Rightarrow> table \<Rightarrow> error option \<times> table" where
  "load_each types [] t = (None, t)"
| "load_each types (ob # obs) t =
     (case add (deserialize types (columns t) ob) t of
        (Inl e, t') \<Rightarrow> (Some e, t')
      | (Inr row, t') \<Rightarrow> load_each types obs t')"

definition load :: "(string \<Rightarrow> hooks) \<Rightarrow> obj list \<Rightarrow> table \<Rightarrow> (error + unit) \<times> table" where
  "load types recs t =
     (case load_each types recs (clear t) of
        (Some e, t') \<Rightarrow> (Inl e, t')
      | (None, t') \<Rightarrow> (Inr (), resetChanges t'))"

subsection \<open>Sequences of calls\<close>

text \<open>
  The calls a program can make on a table and on its rows. A row's own \<open>set\<close> and
  \<open>delete\<close> go to the table that made the row. \<open>exec\<close> is the state a call
  leaves, whether it returns or throws.
\<close>

datatype op =
    Add obj
  | Update rid obj
  | Delete rid
  | Find obj
  | Get obj
  | Data
  | Changes
  | Serialize
  | Load "obj list"
  | Clear
  | ResetChanges
  | Row_set rid obj
  | Row_delete rid

fun exec :: "(string \<Rightarrow> int option) \<Rightarrow> (string \<Rightarrow> hooks) \<Rightarrow> op \<Rightarrow> table \<Rightarrow> table" where
  "exec sn types (Add d) t = snd (add d t)"
| "exec sn types (Update r d) t = snd (update r d t)"
| "exec sn types (Delete r) t = snd (delete_row r t)"
| "exec sn types (Find d) t = t"
| "exec sn types (Get d) t = snd (get_row d t)"
| "exec sn types Data t = snd (data sn t)"
| "exec sn types Changes t = t"
| "exec sn types Serialize t = snd (serialize sn types t)"
| "exec sn types (Load recs) t = snd (load types recs t)"
| "exec sn types Clear t = clear t"
| "exec sn types ResetChanges t = resetChanges t"
| "exec sn types (Row_set r d) t = snd (update r d t)"
| "exec sn types (Row_delete r) t = snd (delete_row r t)"

definition run :: "(string \<Rightarrow> int option) \<Rightarrow> (string \<Rightarrow> hooks) \<Rightarrow> op list \<Rightarrow> table \<Rightarrow> table" where
  "run sn types ops t = fold (exec sn types) ops t"

subsection \<open>What the index reaches\<close>

text \<open>The rows below a node, and each of them with the key values that lead to it.\<close>

fun ix_rows :: "ix \<Rightarrow> rid list" where
  "ix_rows (IxRow r) = [r]"
| "ix_rows (IxMap m) = concat (map (\<lambda>(k, n). ix_rows n) m)"

fun ix_entries :: "ix \<Rightarrow> (val list \<times> rid) list" where
  "ix_entries (IxRow r) = [([], r)]"
| "ix_entries (IxMap m) =
     concat (map (\<lambda>(k, n). map (\<lambda>(p, r). (k # p, r)) (ix_entries n)) m)"

text \<open>
  A node of depth \<open>d\<close>: rows sit exactly \<open>d\<close> levels down, and no \<open>Map\<close> has a key
  twice.
\<close>

fun wf_ix :: "nat \<Rightarrow> ix \<Rightarrow> bool" where
  "wf_ix 0 (IxRow r) = True"
| "wf_ix 0 (IxMap m) = False"
| "wf_ix (Suc d) (IxRow r) = False"
| "wf_ix (Suc d) (IxMap m) = (distinct (map fst m) \<and> list_all (\<lambda>(k, n). wf_ix d n) m)"

definition key_vals :: "string list \<Rightarrow> obj \<Rightarrow> val list" where
  "key_vals keys d = map (get_prop d) keys"

text \<open>
  The schema as the README describes it: a key of at least one column, every key column
  a declared column, no column declared twice. (The constructor asserts
  \<open>col in this.#columns\<close> for each key column, which a name inherited from
  \<open>Object.prototype\<close> passes without being declared.)
\<close>

definition wf_schema :: "table \<Rightarrow> bool" where
  "wf_schema t =
     (key t \<noteq> [] \<and> list_all (\<lambda>c. c \<in> set (map fst (columns t))) (key t)
      \<and> distinct (map fst (columns t)))"

text \<open>
  A consistent table: the live rows are rows of the store with the declared columns,
  the index has the depth of the key, it reaches only live rows, each under its own key
  values, and it reaches every live row.
\<close>

definition consistent :: "table \<Rightarrow> bool" where
  "consistent t =
     (wf_schema t
      \<and> distinct (all t)
      \<and> list_all (\<lambda>r. r < length (heap t) \<and> map fst (heap t ! r) = map fst (columns t)) (all t)
      \<and> wf_ix (length (key t)) (IxMap (index t))
      \<and> list_all (\<lambda>(p, r). r \<in> set (all t) \<and> p = key_vals (key t) (row_fields t r))
           (ix_entries (IxMap (index t)))
      \<and> list_all (\<lambda>r. (key_vals (key t) (row_fields t r), r) \<in> set (ix_entries (IxMap (index t))))
           (all t))"

text \<open>The walk of \<open>#seek\<close> along given key values, as far as they go.\<close>

fun ix_walk :: "val list \<Rightarrow> ix \<Rightarrow> ix option" where
  "ix_walk [] n = Some n"
| "ix_walk (v # vs) (IxRow r) = None"
| "ix_walk (v # vs) (IxMap m) =
     (case map_of m v of None \<Rightarrow> None | Some n \<Rightarrow> ix_walk vs n)"

subsection \<open>Calls that are not rejected\<close>

text \<open>
  \<open>rejected\<close>: the call ends with the duplicate-key error. \<open>accepted\<close>: no call of
  the sequence does.
\<close>

definition rejected :: "(string \<Rightarrow> hooks) \<Rightarrow> op \<Rightarrow> table \<Rightarrow> bool" where
  "rejected types x t =
     (case x of
        Add d \<Rightarrow> fst (add d t) = Inl DuplicateKey
      | Load recs \<Rightarrow> fst (load types recs t) = Inl DuplicateKey
      | _ \<Rightarrow> False)"

fun accepted :: "(string \<Rightarrow> int option) \<Rightarrow> (string \<Rightarrow> hooks) \<Rightarrow> op list \<Rightarrow> table \<Rightarrow> bool" where
  "accepted sn types [] t = True"
| "accepted sn types (x # xs) t =
     (\<not> rejected types x t \<and> accepted sn types xs (exec sn types x t))"

subsection \<open>Key order\<close>

text \<open>
  \<open>ordered_vals\<close>: on the values \<open>V\<close> the operator \<open><\<close> is a strict total order,
  as it is on numbers alone and on strings alone (with \<open>undefined\<close> or a mix of kinds
  it is not). \<open>keys_ordered\<close>: that holds in every key column of the live rows.
  \<open>key_le\<close>: the comparator does not put the second row before the first.
  \<open>fresh_order\<close>: the flag \<open>#needSort\<close> is set or \<open>#all\<close> is in key order.
  \<open>comparable_reads\<close>: the key values are ordered whenever a call of the sequence
  reads \<open>data\<close>.
\<close>

definition ordered_vals :: "(string \<Rightarrow> int option) \<Rightarrow> val set \<Rightarrow> bool" where
  "ordered_vals sn V =
     (\<forall>a \<in> V. \<forall>b \<in> V.
        (js_lt sn a b \<longrightarrow> \<not> js_lt sn b a)
        \<and> (\<not> js_lt sn a b \<longrightarrow> \<not> js_lt sn b a \<longrightarrow> a = b)
        \<and> (\<forall>c \<in> V. js_lt sn a b \<longrightarrow> js_lt sn b c \<longrightarrow> js_lt sn a c))"

definition keys_ordered :: "(string \<Rightarrow> int option) \<Rightarrow> table \<Rightarrow> bool" where
  "keys_ordered sn t =
     (\<forall>c \<in> set (key t). ordered_vals sn ((\<lambda>r. get_prop (row_fields t r) c) ` set (all t)))"

definition key_le :: "(string \<Rightarrow> int option) \<Rightarrow> table \<Rightarrow> rid \<Rightarrow> rid \<Rightarrow> bool" where
  "key_le sn t a b = (sortFn sn (key t) (row_fields t a) (row_fields t b) \<le> 0)"

definition fresh_order :: "(string \<Rightarrow> int option) \<Rightarrow> table \<Rightarrow> bool" where
  "fresh_order sn t = (needSort t \<or> sorted_wrt (key_le sn t) (all t))"

fun comparable_reads ::
  "(string \<Rightarrow> int option) \<Rightarrow> (string \<Rightarrow> hooks) \<Rightarrow> op list \<Rightarrow> table \<Rightarrow> bool" where
  "comparable_reads sn types [] t = True"
| "comparable_reads sn types (x # xs) t =
     ((x = Data \<or> x = Serialize \<longrightarrow> keys_ordered sn t)
      \<and> comparable_reads sn types xs (exec sn types x t))"

text \<open>
  \<open>ascending\<close> is the order in the words of the description of \<open>data\<close>: the
  first key column in which two rows differ decides, by \<open><\<close>; rows that agree in
  every key column are in order. It is compared with the comparator of the code in
  lemma \<open>sortFn_ascending\<close>.
\<close>

fun ascending :: "(string \<Rightarrow> int option) \<Rightarrow> string list \<Rightarrow> obj \<Rightarrow> obj \<Rightarrow> bool" where
  "ascending sn [] a b = True"
| "ascending sn (c # cs) a b =
     (if get_prop a c = get_prop b c then ascending sn cs a b
      else js_lt sn (get_prop a c) (get_prop b c))"

subsection \<open>Type hooks that invert\<close>

text \<open>
  The \<open>deserialize\<close> hook of every column undoes its \<open>serialize\<close> hook on the values
  the live rows hold there; a missing hook is the identity.
\<close>

definition hooks_invert :: "(string \<Rightarrow> hooks) \<Rightarrow> table \<Rightarrow> bool" where
  "hooks_invert types t =
     (\<forall>r \<in> set (all t). \<forall>(c, ty) \<in> set (columns t).
        apply_hook (deserialize_hook (types ty))
          (apply_hook (serialize_hook (types ty)) (get_prop (row_fields t r) c))
        = get_prop (row_fields t r) c)"

section \<open>The table with secondary indexes\<close>

text \<open>
  The second table keeps plain objects as rows, found through named indexes. An index
  derives a key from a row with the function it was made with; a unique index maps a
  key to one row, a plain index to a \<open>Set\<close> of rows. Rows are positions in the store
  \<open>s_heap\<close>.
\<close>

datatype ierror =
    KeyViolation rid
  | NoSuchIndex string
  | ITypeError
  | MainNotUnique

datatype index =
    Index "obj \<Rightarrow> val" "(val \<times> rid list) list"
  | UniqueIndex "obj \<Rightarrow> val" "(val \<times> rid) list"



definition Index_get :: "(obj \<Rightarrow> val) \<Rightarrow> obj \<Rightarrow> (val \<times> rid list) list \<Rightarrow> rid list" where
  "Index_get fn d m = (case map_of m (fn d) of Some entry \<Rightarrow> entry | None \<Rightarrow> [])"

text \<open>\<open>UniqueIndex.add\<close>, \<open>UniqueIndex.delete\<close> and \<open>UniqueIndex.get\<close>.\<close>

definition UniqueIndex_add ::
  "(obj \<Rightarrow> val) \<Rightarrow> obj \<Rightarrow> rid \<Rightarrow> (val \<times> rid) list \<Rightarrow> ierror + (val \<times> rid) list" where
  "UniqueIndex_add fn fields_of_row row m =
     (let k = fn fields_of_row in
      if map_of m k \<noteq> None then Inl (KeyViolation row)
      else Inr (AList.update k row m))"


definition UniqueIndex_get :: "(obj \<Rightarrow> val) \<Rightarrow> obj \<Rightarrow> (val \<times> rid) list \<Rightarrow> rid option" where
  "UniqueIndex_get fn d m = map_of m (fn d)"










section \<open>Example tables\<close>

text \<open>
  The table of the test suite, columns \<open>k1,k2,foo\<close> with key \<open>k1,k2\<close>, and a table
  with the single key column \<open>id\<close>. \<open>no_hooks\<close> is the registry in which every type
  is the identity type, \<open>nan\<close> the string conversion that knows no numeric string.
\<close>

definition cols_k1_k2_foo :: "(string \<times> string) list" where
  "cols_k1_k2_foo = [(''k1'', ''default''), (''k2'', ''default''), (''foo'', ''default'')]"

definition empty_k1_k2 :: table where
  "empty_k1_k2 = new_Table cols_k1_k2_foo [''k1'', ''k2'']"

definition rec_1_2_bar :: obj where
  "rec_1_2_bar = [(''k1'', VNum 1), (''k2'', VNum 2), (''foo'', VStr ''bar'')]"

definition rec_1_2 :: obj where
  "rec_1_2 = [(''k1'', VNum 1), (''k2'', VNum 2)]"

definition rec_2_2 :: obj where
  "rec_2_2 = [(''k1'', VNum 2), (''k2'', VNum 2)]"

definition table_one_row :: table where
  "table_one_row = snd (add rec_1_2_bar empty_k1_k2)"

definition no_hooks :: "string \<Rightarrow> hooks" where
  "no_hooks ty = \<lparr>serialize_hook = None, deserialize_hook = None\<rparr>"

definition nan :: "string \<Rightarrow> int option" where
  "nan s = None"

text \<open>The one-row table after a second \<open>add\<close> of the key \<open>(1, 2)\<close> has thrown.\<close>

definition table_rejected_add :: table where
  "table_rejected_add = snd (add rec_1_2 table_one_row)"

text \<open>
  Two rows added, \<open>data\<close> read, and then an \<open>add\<close> of the key \<open>(1, 2)\<close> again, which
  throws.
\<close>

definition table_stale_order :: table where
  "table_stale_order = run nan no_hooks [Add rec_2_2, Add rec_1_2, Data, Add rec_1_2] empty_k1_k2"

text \<open>
  A table of the second kind with the unique index \<open>main\<close> on \<open>id\<close> and an
  \<open>onsave\<close> callback; \<open>itable_saved\<close> holds one row and has been saved.
\<close>

definition by_id :: "obj \<Rightarrow> val" where
  "by_id ob = get_prop ob ''id''"

definition rec_id1_bar :: obj where
  "rec_id1_bar = [(''id'', VNum 1), (''foo'', VStr ''bar'')]"



text \<open>
  The table after its only row has been added and deleted again: no row is live, and
  the index still holds the empty \<open>Map\<close> under \<open>k1 = 1\<close>.
\<close>

definition table_emptied :: table where
  "table_emptied = run nan no_hooks [Add rec_1_2_bar, Delete 0] empty_k1_k2"

text \<open>The one-row table after \<open>resetChanges\<close>: its row is in the untouched bucket.\<close>

definition table_untouched_row :: table where
  "table_untouched_row = resetChanges table_one_row"

text \<open>
  Calls that try to write key columns, among others: an \<open>update\<close> of \<open>k1\<close>, a
  row's own \<open>set\<close> with \<open>k2\<close> in the change set, an \<open>update\<close> of \<open>foo\<close> alone.
\<close>

definition ops_on_keys :: "op list" where
  "ops_on_keys =
     [Update 0 [(''k1'', VNum 9)], Row_set 0 [(''foo'', VStr ''x''), (''k2'', VNum 7)],
      Update 0 [(''foo'', VStr ''y'')], Add rec_2_2, Data, Row_delete 0, Load [rec_1_2_bar]]"

text \<open>
  \<open>keeps t t'\<close>: the later state \<open>t'\<close> has the schema of \<open>t\<close>, every row of the
  store of \<open>t\<close> is still in the store, and its key fields have the values they had.
\<close>

definition keeps :: "table \<Rightarrow> table \<Rightarrow> bool" where
  "keeps t t' =
     (key t' = key t \<and> columns t' = columns t \<and> length (heap t) \<le> length (heap t')
      \<and> (\<forall>r < length (heap t). \<forall>c \<in> set (key t).
            get_prop (heap t' ! r) c = get_prop (heap t ! r) c))"

text \<open>
  A table with the single key column \<open>id\<close>: three adds, the second of them rejected
  for its duplicate key; and a fresh table of the same schema loaded with what the first
  serializes.
\<close>

definition cols_id_v :: "(string \<times> string) list" where
  "cols_id_v = [(''id'', ''default''), (''v'', ''default'')]"

definition table_dup_id :: table where
  "table_dup_id =
     run nan no_hooks
       [Add [(''id'', VNum 1), (''v'', VStr ''a'')],
        Add [(''id'', VNum 1), (''v'', VStr ''b'')],
        Add [(''id'', VNum 2), (''v'', VStr ''c'')]] (new_Table cols_id_v [''id''])"

definition table_reloaded :: "(error + unit) \<times> table" where
  "table_reloaded =
     load no_hooks (fst (serialize nan no_hooks table_dup_id)) (new_Table cols_id_v [''id''])"

text \<open>The three rows of the ordering example, added in the order of the example.\<close>

definition ops_three_rows :: "op list" where
  "ops_three_rows =
     [Add [(''k1'', VNum 2), (''k2'', VNum 2), (''foo'', VStr ''bar'')],
      Add [(''k1'', VNum 1), (''k2'', VNum 2), (''foo'', VStr ''baz'')],
      Add [(''k1'', VNum 2), (''k2'', VNum 3), (''foo'', VStr ''boz'')]]"

definition table_three_rows :: table where
  "table_three_rows = run nan no_hooks ops_three_rows empty_k1_k2"

text \<open>
  Two tables whose first key column holds the string \<open>'a'\<close> in one row and the
  number \<open>1\<close> in the other; only the values of the second key column are exchanged
  between the two tables.
\<close>

definition ops_mixed_keys :: "op list" where
  "ops_mixed_keys =
     [Add [(''k1'', VStr ''a''), (''k2'', VNum 2)], Add [(''k1'', VNum 1), (''k2'', VNum 1)]]"

definition table_mixed_keys :: table where
  "table_mixed_keys = run nan no_hooks ops_mixed_keys empty_k1_k2"

definition ops_mixed_keys' :: "op list" where
  "ops_mixed_keys' =
     [Add [(''k1'', VStr ''a''), (''k2'', VNum 1)], Add [(''k1'', VNum 1), (''k2'', VNum 2)]]"

definition table_mixed_keys' :: table where
  "table_mixed_keys' = run nan no_hooks ops_mixed_keys' empty_k1_k2"

section \<open>Properties of the keyed table\<close>

subsection \<open>A rejected add\<close>

text \<open>
  C1. An \<open>add\<close> whose full key is the key of a live row fails with the duplicate-key
  error, and the table should be as it was before the call. The code puts the new row
  into \<open>#all\<close> and \<open>#added\<close> before it indexes it: on the one-row table with the
  key \<open>(1, 2)\<close>, a second \<open>add\<close> of \<open>(1, 2)\<close> throws the duplicate-key error and
  leaves the index as it was, but the live rows and the added bucket both hold the
  rejected row.
\<close>

theorem add_duplicate_key_commits_row:
  "fst (add rec_1_2 table_one_row) = Inl DuplicateKey
   \<and> all table_one_row = [0] \<and> all (snd (add rec_1_2 table_one_row)) = [0, 1]
   \<and> added table_one_row = [0] \<and> added (snd (add rec_1_2 table_one_row)) = [0, 1]
   \<and> index (snd (add rec_1_2 table_one_row)) = index table_one_row"
  by code_simp

text \<open>
  C2. After any sequence of calls the rows the index reaches should be the live rows.
  After the rejected \<open>add\<close> above, row 1 is live, the index reaches row 0 only, and
  looking row 1 up under its own key values finds row 0.
\<close>

theorem rejected_add_row_not_indexed:
  "all table_rejected_add = [0, 1]
   \<and> ix_rows (IxMap (index table_rejected_add)) = [0]
   \<and> find (row_fields table_rejected_add 1) table_rejected_add = Inr (Some (IxRow 0))"
  by code_simp

subsection \<open>Reading in key order\<close>

text \<open>
  A rejected \<open>add\<close> puts its row at the end of \<open>#all\<close> and does not set
  \<open>#needSort\<close>: after adding \<open>(2, 2)\<close> and \<open>(1, 2)\<close>, reading \<open>data\<close>, and a
  rejected \<open>add\<close> of \<open>(1, 2)\<close>, \<open>data\<close> yields the keys \<open>(1, 2)\<close>, \<open>(2, 2)\<close>,
  \<open>(1, 2)\<close>, with the second row greater than the third.
\<close>

lemma data_unsorted_after_rejected_add:
  "fst (data nan table_stale_order) = [1, 0, 2]
   \<and> map (\<lambda>r. key_vals (key table_stale_order) (row_fields table_stale_order r)) [1, 0, 2]
       = [[VNum 1, VNum 2], [VNum 2, VNum 2], [VNum 1, VNum 2]]
   \<and> sortFn nan (key table_stale_order)
        (row_fields table_stale_order 0) (row_fields table_stale_order 2) = 1"
  by code_simp

subsection \<open>Change tracking after a reset\<close>

text \<open>
  C8. After \<open>resetChanges\<close> the untouched bucket is the live row set and the added,
  changed and deleted buckets are empty; the same holds after a \<open>load\<close> that returns,
  since it ends with \<open>resetChanges\<close>.
\<close>

theorem resetChanges_buckets:
  "untouched (resetChanges t) = all (resetChanges t)
   \<and> added (resetChanges t) = [] \<and> changed (resetChanges t) = [] \<and> deleted (resetChanges t) = []
   \<and> (load types recs t = (Inr (), t') \<longrightarrow>
        untouched t' = all t' \<and> added t' = [] \<and> changed t' = [] \<and> deleted t' = [])"
  by (auto simp: resetChanges_def load_def split: prod.splits option.splits)

theorem resetChanges_buckets_witness:
  "load no_hooks [rec_1_2_bar] table_one_row
     = (Inr (), snd (load no_hooks [rec_1_2_bar] table_one_row))
   \<and> untouched (snd (load no_hooks [rec_1_2_bar] table_one_row)) = [1]
   \<and> all (snd (load no_hooks [rec_1_2_bar] table_one_row)) = [1]
   \<and> added (snd (load no_hooks [rec_1_2_bar] table_one_row)) = []"
proof -
  have run: "load no_hooks [rec_1_2_bar] table_one_row
     = (Inr (), snd (load no_hooks [rec_1_2_bar] table_one_row))"
    by code_simp
  have "all (snd (load no_hooks [rec_1_2_bar] table_one_row)) = [1]"
    by code_simp
  with run resetChanges_buckets [of table_one_row no_hooks "[rec_1_2_bar]"
      "snd (load no_hooks [rec_1_2_bar] table_one_row)"]
  show ?thesis by simp
qed

subsection \<open>Updating a row\<close>

lemma has_own_prop: "has_own c d \<Longrightarrow> has_prop c d"
  by (simp add: has_prop_def)

lemma has_own_update: "has_own c (AList.update k v flds) = (c = k \<or> has_own c flds)"
  by (simp add: has_own_def update_conv')

lemma get_prop_update: "c \<noteq> k \<Longrightarrow> get_prop (AList.update k v flds) c = get_prop flds c"
  by (simp add: get_prop_def update_conv')

lemma assign_writable:
  "list_all (\<lambda>(k, v). has_own k flds \<and> k \<notin> set keys) d \<Longrightarrow> fst (assign keys flds d) = None"
proof (induction d arbitrary: flds)
  case Nil
  then show ?case by simp
next
  case (Cons p d)
  obtain k v where p: "p = (k, v)" by (cases p)
  from Cons.prems p have "list_all (\<lambda>(k', v'). has_own k' (AList.update k v flds) \<and> k' \<notin> set keys) d"
    by (auto simp: list_all_iff has_own_update)
  from Cons.IH [OF this] Cons.prems p show ?case by simp
qed

lemma assign_keeps_key:
  "c \<in> set keys \<Longrightarrow> get_prop (snd (assign keys flds d)) c = get_prop flds c"
proof (induction d arbitrary: flds)
  case Nil
  then show ?case by simp
next
  case (Cons p d)
  obtain k v where p: "p = (k, v)" by (cases p)
  show ?case
  proof (cases "has_own k flds \<and> k \<notin> set keys")
    case True
    with Cons.prems have "c \<noteq> k" by auto
    with Cons.IH [OF Cons.prems, of "AList.update k v flds"] True p show ?thesis
      by (simp add: get_prop_update)
  next
    case False
    with p show ?thesis by auto
  qed
qed

text \<open>
  C3, as the code has it. For a live row: when the merged values equal the current
  ones, \<open>update\<close> returns the row and changes nothing, no bucket either; when they
  differ and the change set names only columns of the row that are not key columns, the
  row leaves untouched and enters changed, unless it is in added, where it stays.
\<close>

theorem update_buckets:
  assumes "row \<in> set (all t)"
  shows "(equal (row_fields t row) (spread (row_fields t row) d) \<longrightarrow> update row d t = (Inr row, t))
    \<and> (\<not> equal (row_fields t row) (spread (row_fields t row) d)
        \<and> list_all (\<lambda>(k, v). has_own k (row_fields t row) \<and> k \<notin> set (key t)) d \<longrightarrow>
        (\<exists>t'. update row d t = (Inr row, t')
           \<and> untouched t' = set_delete row (untouched t)
           \<and> added t' = added t \<and> deleted t' = deleted t
           \<and> changed t' = (if row \<in> set (added t) then changed t else set_add row (changed t))
           \<and> row \<notin> set (untouched t')
           \<and> (if row \<in> set (added t) then row \<in> set (added t') else row \<in> set (changed t'))))"
proof (intro conjI impI)
  assume "equal (row_fields t row) (spread (row_fields t row) d)"
  with assms show "update row d t = (Inr row, t)"
    by (simp add: update_def)
next
  assume a: "\<not> equal (row_fields t row) (spread (row_fields t row) d)
        \<and> list_all (\<lambda>(k, v). has_own k (row_fields t row) \<and> k \<notin> set (key t)) d"
  then have "fst (assign (key t) (row_fields t row) d) = None"
    by (simp add: assign_writable)
  then obtain flds' where "assign (key t) (row_fields t row) d = (None, flds')"
    by (cases "assign (key t) (row_fields t row) d") auto
  with assms a show "\<exists>t'. update row d t = (Inr row, t')
           \<and> untouched t' = set_delete row (untouched t)
           \<and> added t' = added t \<and> deleted t' = deleted t
           \<and> changed t' = (if row \<in> set (added t) then changed t else set_add row (changed t))
           \<and> row \<notin> set (untouched t')
           \<and> (if row \<in> set (added t) then row \<in> set (added t') else row \<in> set (changed t'))"
    by (simp add: update_def Let_def set_delete_def set_add_def)
qed

theorem update_buckets_witness:
  "0 \<in> set (all table_untouched_row)
   \<and> untouched table_untouched_row = [0]
   \<and> update 0 [(''foo'', VStr ''bar'')] table_untouched_row = (Inr 0, table_untouched_row)
   \<and> fst (update 0 [(''foo'', VStr ''baz'')] table_untouched_row) = Inr 0
   \<and> untouched (snd (update 0 [(''foo'', VStr ''baz'')] table_untouched_row)) = []
   \<and> changed (snd (update 0 [(''foo'', VStr ''baz'')] table_untouched_row)) = [0]"
proof -
  have live: "0 \<in> set (all table_untouched_row)" by code_simp
  have same: "equal (row_fields table_untouched_row 0)
      (spread (row_fields table_untouched_row 0) [(''foo'', VStr ''bar'')])"
    by code_simp
  have other: "\<not> equal (row_fields table_untouched_row 0)
      (spread (row_fields table_untouched_row 0) [(''foo'', VStr ''baz'')])
    \<and> list_all (\<lambda>(k, v). has_own k (row_fields table_untouched_row 0)
                   \<and> k \<notin> set (key table_untouched_row)) [(''foo'', VStr ''baz'')]"
    by code_simp
  have bk: "untouched table_untouched_row = [0] \<and> changed table_untouched_row = []
     \<and> added table_untouched_row = []"
    by code_simp
  from update_buckets [OF live, of "[(''foo'', VStr ''bar'')]"] same
  have 1: "update 0 [(''foo'', VStr ''bar'')] table_untouched_row = (Inr 0, table_untouched_row)"
    by simp
  from update_buckets [OF live, of "[(''foo'', VStr ''baz'')]"] other bk
  have 2: "fst (update 0 [(''foo'', VStr ''baz'')] table_untouched_row) = Inr 0
   \<and> untouched (snd (update 0 [(''foo'', VStr ''baz'')] table_untouched_row)) = []
   \<and> changed (snd (update 0 [(''foo'', VStr ''baz'')] table_untouched_row)) = [0]"
    by (auto simp: set_delete_def set_add_def)
  from live bk 1 2 show ?thesis by simp
qed

text \<open>
  A change set that names a key column with another value: the merged values differ,
  \<open>update\<close> throws a \<open>TypeError\<close>, and the row is still in untouched and not in
  changed.
\<close>

theorem update_key_column_counterexample:
  "0 \<in> set (all table_untouched_row)
   \<and> \<not> equal (row_fields table_untouched_row 0)
          (spread (row_fields table_untouched_row 0) [(''k1'', VNum 3)])
   \<and> fst (update 0 [(''k1'', VNum 3)] table_untouched_row) = Inl TypeError
   \<and> untouched (snd (update 0 [(''k1'', VNum 3)] table_untouched_row)) = [0]
   \<and> changed (snd (update 0 [(''k1'', VNum 3)] table_untouched_row)) = []"
  by code_simp

subsection \<open>Key fields\<close>

lemma keeps_refl: "keeps t t"
  by (simp add: keeps_def)

lemma keeps_trans: "keeps t t' \<Longrightarrow> keeps t' t'' \<Longrightarrow> keeps t t''"
  by (auto simp: keeps_def)

lemma keeps_same_heap: "key t' = key t \<Longrightarrow> columns t' = columns t \<Longrightarrow> heap t' = heap t \<Longrightarrow> keeps t t'"
  by (simp add: keeps_def)

lemma keeps_resetChanges: "keeps t (resetChanges t)"
  by (simp add: keeps_same_heap resetChanges_def)

lemma keeps_clear: "keeps t (clear t)"
  by (simp add: keeps_same_heap clear_def resetChanges_def)

lemma keeps_add: "keeps t (snd (add d t))"
  by (auto simp: add_def keeps_def Let_def nth_append split: sum.splits prod.splits option.splits)

lemma keeps_update: "keeps t (snd (update r d t))"
proof -
  have "keeps t (t\<lparr>heap := (heap t)[r := snd (assign (key t) (row_fields t r) d)]\<rparr>)"
    by (auto simp: keeps_def nth_list_update row_fields_def assign_keeps_key)
  then show ?thesis
    by (auto simp: update_def Let_def keeps_refl keeps_def split: prod.splits option.splits)
qed

lemma keeps_delete_row: "keeps t (snd (delete_row r t))"
  by (auto simp: delete_row_def Let_def keeps_def split: prod.splits sum.splits)

lemma keeps_data: "keeps t (snd (data sn t))"
  by (simp add: data_def Let_def keeps_def)

lemma keeps_serialize: "keeps t (snd (serialize sn types t))"
  using keeps_data [of t sn] by (auto simp: serialize_def split: prod.splits)

lemma keeps_get_row: "keeps t (snd (get_row d t))"
  using keeps_add [of t d]
  by (auto simp: get_row_def keeps_refl split: sum.splits option.splits prod.splits)

lemma keeps_load_each: "keeps t (snd (load_each types recs t))"
proof (induction recs arbitrary: t)
  case Nil
  then show ?case by (simp add: keeps_refl)
next
  case (Cons ob obs)
  let ?a = "add (deserialize types (columns t) ob) t"
  have 1: "keeps t (snd ?a)" by (rule keeps_add)
  show ?case
  proof (cases "fst ?a")
    case (Inl e)
    with 1 show ?thesis by (auto split: prod.splits sum.splits)
  next
    case (Inr row)
    with keeps_trans [OF 1 Cons.IH [of "snd ?a"]] show ?thesis
      by (auto split: prod.splits sum.splits)
  qed
qed

lemma keeps_load: "keeps t (snd (load types recs t))"
proof -
  have "keeps t (snd (load_each types recs (clear t)))"
    by (rule keeps_trans [OF keeps_clear keeps_load_each])
  moreover have "keeps (snd (load_each types recs (clear t))) (resetChanges (snd (load_each types recs (clear t))))"
    by (rule keeps_resetChanges)
  ultimately show ?thesis
    by (auto simp: load_def split: prod.splits option.splits dest: keeps_trans)
qed

lemma keeps_exec: "keeps t (exec sn types x t)"
  by (cases x)
     (simp_all add: keeps_refl keeps_add keeps_update keeps_delete_row keeps_get_row keeps_data
        keeps_serialize keeps_load keeps_clear keeps_resetChanges)

lemma keeps_run: "keeps t (run sn types ops t)"
  unfolding run_def
proof (induction ops arbitrary: t)
  case Nil
  then show ?case by (simp add: keeps_refl)
next
  case (Cons x xs)
  from keeps_trans [OF keeps_exec Cons.IH] show ?case by simp
qed

text \<open>
  C9. The key fields of a row keep their values through every sequence of calls on the
  table and on its rows, whether or not a change set names key columns.
\<close>

theorem key_fields_fixed:
  assumes "r < length (heap t)" and "c \<in> set (key t)"
  shows "get_prop (row_fields (run sn types ops t) r) c = get_prop (row_fields t r) c"
  using keeps_run [of t sn types ops] assms
  by (simp add: keeps_def row_fields_def)

theorem key_fields_fixed_witness:
  "0 < length (heap table_one_row) \<and> ''k1'' \<in> set (key table_one_row)
   \<and> get_prop (row_fields table_one_row 0) ''k1'' = VNum 1
   \<and> get_prop (row_fields (run nan no_hooks ops_on_keys table_one_row) 0) ''k1'' = VNum 1
   \<and> get_prop (row_fields (run nan no_hooks ops_on_keys table_one_row) 0) ''foo'' = VStr ''y''"
proof -
  have h: "0 < length (heap table_one_row)" "''k1'' \<in> set (key table_one_row)"
    by code_simp+
  have v: "get_prop (row_fields table_one_row 0) ''k1'' = VNum 1
     \<and> get_prop (row_fields (run nan no_hooks ops_on_keys table_one_row) 0) ''foo'' = VStr ''y''"
    by code_simp
  from key_fields_fixed [OF h, of nan no_hooks ops_on_keys] h v show ?thesis by simp
qed

subsection \<open>Finding a row\<close>

lemma wf_ix_child:
  "wf_ix (Suc d) (IxMap m) \<Longrightarrow> map_of m v = Some n \<Longrightarrow> wf_ix d n"
  by (auto simp: list_all_iff dest!: map_of_SomeD)

lemma key_vals_Cons: "key_vals (c # cs) d = get_prop d c # key_vals cs d"
  by (simp add: key_vals_def)

lemma seek_walk:
  "cols \<noteq> [] \<Longrightarrow> list_all (\<lambda>c. has_prop c kd) cols \<Longrightarrow> wf_ix (length cols) n \<Longrightarrow>
   seek cols kd n = Inr (ix_walk (key_vals cols kd) n)"
proof (induction cols arbitrary: n)
  case Nil
  then show ?case by simp
next
  case (Cons c cs)
  from Cons.prems obtain m where n: "n = IxMap m" by (cases n) auto
  show ?case
  proof (cases "map_of m (get_prop kd c)")
    case None
    with Cons.prems n show ?thesis by (simp add: key_vals_Cons)
  next
    case (Some n')
    from Cons.prems n have "wf_ix (Suc (length cs)) (IxMap m)" by simp
    from wf_ix_child [OF this Some] have wf: "wf_ix (length cs) n'" .
    show ?thesis
    proof (cases "cs = []")
      case True
      with Some Cons.prems n show ?thesis by (simp add: key_vals_Cons key_vals_def)
    next
      case False
      from Cons.prems have "list_all (\<lambda>c. has_prop c kd) cs" by simp
      from Cons.IH [OF False this wf] Cons.prems Some n False show ?thesis
        by (simp add: key_vals_Cons)
    qed
  qed
qed

lemma entries_Map_Cons:
  "((v # vs, r) \<in> set (ix_entries (IxMap m)))
     = (\<exists>n'. (v, n') \<in> set m \<and> (vs, r) \<in> set (ix_entries n'))"
  by (induction m) auto

lemma entries_Map_Nil: "([], r) \<notin> set (ix_entries (IxMap m))"
  by (induction m) auto

declare ix_entries.simps(2) [simp del]

lemma walk_entries:
  "wf_ix (length vs) n \<Longrightarrow>
   (ix_walk vs n = Some x) = (\<exists>r. x = IxRow r \<and> (vs, r) \<in> set (ix_entries n))"
proof (induction vs arbitrary: n)
  case Nil
  then show ?case by (cases n) auto
next
  case (Cons v vs)
  from Cons.prems obtain m where n: "n = IxMap m" by (cases n) auto
  from Cons.prems n have wfm: "wf_ix (Suc (length vs)) (IxMap m)" by simp
  then have dist: "distinct (map fst m)" by simp
  show ?case
  proof (cases "map_of m v")
    case None
    then have "\<And>n'. (v, n') \<notin> set m"
      by (metis map_of_eq_None_iff fst_conv image_eqI)
    with None n show ?thesis by (simp add: entries_Map_Cons del: ix_entries.simps)
  next
    case (Some n')
    have mem: "\<And>n''. ((v, n'') \<in> set m) = (n'' = n')"
      using dist Some by (metis map_of_eq_Some_iff option.inject)
    from Cons.IH [OF wf_ix_child [OF wfm Some]]
    have "(ix_walk vs n' = Some x) = (\<exists>r. x = IxRow r \<and> (vs, r) \<in> set (ix_entries n'))" .
    with Some n mem show ?thesis by (simp add: entries_Map_Cons del: ix_entries.simps)
  qed
qed

lemma seek_prefix:
  "list_all (\<lambda>c. has_prop c kd) pre \<Longrightarrow> \<not> has_prop c kd \<Longrightarrow>
   wf_ix (length (pre @ c # post)) n \<Longrightarrow>
   seek (pre @ c # post) kd n
     = (if ix_walk (key_vals pre kd) n = None then Inr None else Inl (KeyNotSupplied c))"
proof (induction pre arbitrary: n)
  case Nil
  then show ?case by (simp add: key_vals_def)
next
  case (Cons p ps)
  from Cons.prems obtain m where n: "n = IxMap m" by (cases n) auto
  from Cons.prems n have wfm: "wf_ix (Suc (length (ps @ c # post))) (IxMap m)" by simp
  show ?case
  proof (cases "map_of m (get_prop kd p)")
    case None
    with Cons.prems n show ?thesis by (simp add: key_vals_Cons)
  next
    case (Some n')
    from Cons.prems have "list_all (\<lambda>c. has_prop c kd) ps" by simp
    from Cons.IH [OF this Cons.prems(2) wf_ix_child [OF wfm Some]] Cons.prems Some n
    show ?thesis by (simp add: key_vals_Cons)
  qed
qed

lemma consistent_key: "consistent t \<Longrightarrow> key t \<noteq> []"
  by (simp add: consistent_def wf_schema_def)

lemma consistent_wf: "consistent t \<Longrightarrow> wf_ix (length (key t)) (IxMap (index t))"
  by (simp add: consistent_def)

lemma consistent_sound:
  "consistent t \<Longrightarrow> (p, r) \<in> set (ix_entries (IxMap (index t))) \<Longrightarrow>
   r \<in> set (all t) \<and> p = key_vals (key t) (row_fields t r)"
  unfolding consistent_def list_all_iff by blast

lemma consistent_complete:
  "consistent t \<Longrightarrow> r \<in> set (all t) \<Longrightarrow>
   (key_vals (key t) (row_fields t r), r) \<in> set (ix_entries (IxMap (index t)))"
  unfolding consistent_def list_all_iff by blast

text \<open>
  A \<open>keyData\<close> with a value for every key column, on a consistent table: \<open>find\<close>
  does not throw; it returns the one live row with those key values, or nothing when no
  live row has them.
\<close>

lemma find_full_key:
  assumes "consistent t" and full: "list_all (\<lambda>c. has_prop c kd) (key t)"
  shows "case find kd t of
              Inl e \<Rightarrow> False
            | Inr None \<Rightarrow>
                (\<forall>r \<in> set (all t). key_vals (key t) (row_fields t r) \<noteq> key_vals (key t) kd)
            | Inr (Some n) \<Rightarrow>
                (\<exists>r. n = IxRow r \<and> r \<in> set (all t)
                   \<and> key_vals (key t) (row_fields t r) = key_vals (key t) kd
                   \<and> (\<forall>r' \<in> set (all t).
                         key_vals (key t) (row_fields t r') = key_vals (key t) kd \<longrightarrow> r' = r))"
proof -
  note ne = consistent_key [OF assms(1)] and wf = consistent_wf [OF assms(1)]
    and sound = consistent_sound [OF assms(1)] and complete = consistent_complete [OF assms(1)]
  let ?vs = "key_vals (key t) kd"
  have len: "length ?vs = length (key t)" by (simp add: key_vals_def)
  from wf len have wf': "wf_ix (length ?vs) (IxMap (index t))" by simp
  have f: "find kd t = Inr (ix_walk ?vs (IxMap (index t)))"
    unfolding find_def by (rule seek_walk [OF ne full wf])
  show ?thesis
  proof (cases "ix_walk ?vs (IxMap (index t))")
    case None
    have "\<forall>r \<in> set (all t). key_vals (key t) (row_fields t r) \<noteq> ?vs"
    proof (intro ballI notI)
      fix r assume "r \<in> set (all t)" and eq: "key_vals (key t) (row_fields t r) = ?vs"
      from complete [OF this(1)] eq have "(?vs, r) \<in> set (ix_entries (IxMap (index t)))" by simp
      with walk_entries [OF wf', of "IxRow r"] None show False by simp
    qed
    with f None show ?thesis by simp
  next
    case (Some n)
    with walk_entries [OF wf', of n] obtain r where
      n: "n = IxRow r" and e: "(?vs, r) \<in> set (ix_entries (IxMap (index t)))" by auto
    from sound [OF e] have live: "r \<in> set (all t)"
      and kv: "key_vals (key t) (row_fields t r) = ?vs" by simp_all
    have uniq: "\<forall>r' \<in> set (all t). key_vals (key t) (row_fields t r') = ?vs \<longrightarrow> r' = r"
    proof (intro ballI impI)
      fix r' assume "r' \<in> set (all t)" and eq: "key_vals (key t) (row_fields t r') = ?vs"
      from complete [OF this(1)] eq have "(?vs, r') \<in> set (ix_entries (IxMap (index t)))" by simp
      with walk_entries [OF wf', of "IxRow r'"] Some n show "r' = r" by simp
    qed
    from n live kv uniq have "\<exists>r. n = IxRow r \<and> r \<in> set (all t)
                   \<and> key_vals (key t) (row_fields t r) = ?vs
                   \<and> (\<forall>r' \<in> set (all t).
                         key_vals (key t) (row_fields t r') = ?vs \<longrightarrow> r' = r)"
      by blast
    with f Some show ?thesis by simp
  qed
qed

text \<open>
  A key column with the name of something every object inherits is never missing:
  with the key \<open>constructor\<close>, the empty record makes a row, and on the fresh table
  \<open>find\<close> of the empty record looks the inherited value up and returns nothing.
\<close>

lemma find_inherited_key:
  "has_prop ''constructor'' []
   \<and> \<not> has_own ''constructor'' []
   \<and> find [] (new_Table [(''constructor'', ''default'')] [''constructor'']) = Inr None
   \<and> fst (add [] (new_Table [(''constructor'', ''default'')] [''constructor''])) = Inr 0
   \<and> find [] (snd (add [] (new_Table [(''constructor'', ''default'')] [''constructor''])))
       = Inr (Some (IxRow 0))"
  by code_simp

text \<open>
  A \<open>keyData\<close> whose first missing key column is \<open>c\<close>, on an index of the shape
  the key gives it: \<open>find\<close> throws for \<open>c\<close> when the index has a \<open>Map\<close> under
  the key values before \<open>c\<close>, and returns nothing when it has none.
\<close>

lemma find_partial_key:
  assumes "wf_ix (length (key t)) (IxMap (index t))"
    and "key t = pre @ c # post" and "list_all (\<lambda>c. has_prop c kd) pre" and "\<not> has_prop c kd"
  shows "find kd t = (if ix_walk (key_vals pre kd) (IxMap (index t)) = None then Inr None
                      else Inl (KeyNotSupplied c))"
proof -
  from assms(1,2) have "wf_ix (length (pre @ c # post)) (IxMap (index t))" by simp
  from seek_prefix [OF assms(3,4) this] assms(2) show ?thesis by (simp add: find_def)
qed

text \<open>
  C4. A \<open>keyData\<close> that lacks a key column should make \<open>find\<close> fail with the
  missing-key error, which is the error with the message \<open>Key not supplied\<close>.
  \<open>#seek\<close> asserts a key column only when its loop reaches it, and
  it leaves the loop at the first key value under which the index has no \<open>Map\<close>. The
  key is \<open>k1,k2\<close>. On the table whose only row has the key \<open>(1, 2)\<close>, \<open>find\<close> of
  \<open>k1 = 5\<close> without \<open>k2\<close> returns nothing, while \<open>find\<close> of \<open>k1 = 1\<close> without
  \<open>k2\<close> throws. On two tables without a live row, \<open>find\<close> of \<open>k1 = 1\<close> without
  \<open>k2\<close> returns nothing on the fresh one and throws on the one whose row has been
  deleted.
\<close>

theorem find_partial_key_not_rejected:
  "key table_one_row = [''k1'', ''k2'']
   \<and> \<not> has_prop ''k2'' [(''k1'', VNum 5)]
   \<and> find [(''k1'', VNum 5)] table_one_row = Inr None
   \<and> find [(''k1'', VNum 1)] table_one_row = Inl (KeyNotSupplied ''k2'')
   \<and> all empty_k1_k2 = [] \<and> all table_emptied = []
   \<and> find [(''k1'', VNum 1)] empty_k1_k2 = Inr None
   \<and> find [(''k1'', VNum 1)] table_emptied = Inl (KeyNotSupplied ''k2'')"
  by code_simp

subsection \<open>Serialize and load\<close>

text \<open>
  C6. Loading what \<open>serialize\<close> returns into a fresh table of the same schema should
  reproduce the live rows. After a rejected \<open>add\<close> the table serializes three rows,
  two of them with the key \<open>1\<close>; \<open>load\<close> throws the duplicate-key error at the
  second, and the fresh table never gets the row with the key \<open>2\<close>.
\<close>

theorem reload_fails_after_rejected_add:
  "map (row_fields (snd (data nan table_dup_id))) (fst (data nan table_dup_id))
     = [[(''id'', VNum 1), (''v'', VStr ''a'')], [(''id'', VNum 1), (''v'', VStr ''b'')],
        [(''id'', VNum 2), (''v'', VStr ''c'')]]
   \<and> fst table_reloaded = Inl DuplicateKey
   \<and> map (row_fields (snd table_reloaded)) (fst (data nan (snd table_reloaded)))
     = [[(''id'', VNum 1), (''v'', VStr ''a'')], [(''id'', VNum 1), (''v'', VStr ''b'')]]"
  by code_simp

subsection \<open>The index after an insertion or a removal\<close>

lemma wf_ix_Suc_iff:
  "wf_ix (Suc d) (IxMap m)
     = (distinct (map fst m) \<and> (\<forall>k n. map_of m k = Some n \<longrightarrow> wf_ix d n))"
proof (cases "distinct (map fst m)")
  case True
  then have "\<And>k n. ((k, n) \<in> set m) = (map_of m k = Some n)" by simp
  with True show ?thesis by (auto simp: list_all_iff)
next
  case False
  then show ?thesis by simp
qed

lemma wf_ix_update:
  "wf_ix (Suc d) (IxMap m) \<Longrightarrow> wf_ix d n \<Longrightarrow> wf_ix (Suc d) (IxMap (AList.update k n m))"
  unfolding wf_ix_Suc_iff by (simp add: distinct_update update_conv')

lemma wf_ix_delete:
  "wf_ix (Suc d) (IxMap m) \<Longrightarrow> wf_ix (Suc d) (IxMap (AList.delete k m))"
  unfolding wf_ix_Suc_iff by (simp add: distinct_delete delete_conv')

lemma wf_ix_empty: "wf_ix (Suc d) (IxMap [])"
  by simp

lemma wf_ix_Map_child:
  "wf_ix (Suc (Suc d)) (IxMap m) \<Longrightarrow> map_of m k = Some n \<Longrightarrow> \<exists>sub. n = IxMap sub"
  by (drule (1) wf_ix_child) (cases n, auto)

lemma addToIndex_wf:
  "cols \<noteq> [] \<Longrightarrow> wf_ix (length cols) (IxMap m) \<Longrightarrow>
   wf_ix (length cols) (IxMap (snd (addToIndex cols d r m)))"
proof (induction cols arbitrary: m)
  case Nil
  then show ?case by simp
next
  case (Cons c cs)
  let ?k = "get_prop d c"
  from Cons.prems have wfm: "wf_ix (Suc (length cs)) (IxMap m)" by simp
  show ?case
  proof (cases "cs = []")
    case True
    have "wf_ix (Suc (length cs)) (IxMap (AList.update ?k (IxRow r) m))"
      using wfm True by (intro wf_ix_update) simp_all
    with wfm True show ?thesis by (simp add: Let_def del: wf_ix.simps)
  next
    case False
    then obtain d' where d': "length cs = Suc d'" by (cases cs) auto
    show ?thesis
    proof (cases "map_of m ?k")
      case None
      obtain e sub where a: "addToIndex cs d r [] = (e, sub)"
        by (cases "addToIndex cs d r []")
      from Cons.IH [OF False, of "[]"] d' a
      have "wf_ix (length cs) (IxMap sub)" by simp
      from wf_ix_update [OF wfm this] wfm None False a show ?thesis
        by (simp add: Let_def del: wf_ix.simps)
    next
      case (Some n)
      from wf_ix_child [OF wfm Some] have wfn: "wf_ix (length cs) n" .
      with d' obtain sub0 where n: "n = IxMap sub0" by (cases n) auto
      obtain e sub where a: "addToIndex cs d r sub0 = (e, sub)"
        by (cases "addToIndex cs d r sub0")
      from Cons.IH [OF False, of sub0] wfn n a
      have "wf_ix (length cs) (IxMap sub)" by simp
      from wf_ix_update [OF wfm this] wfm Some n False a show ?thesis
        by (simp add: Let_def del: wf_ix.simps)
    qed
  qed
qed

lemma ix_walk_Map_update:
  "ix_walk (v # vs) (IxMap (AList.update k n m))
     = (if v = k then ix_walk vs n else ix_walk (v # vs) (IxMap m))"
  by (simp add: update_conv')

lemma ix_walk_Map_delete:
  "ix_walk (v # vs) (IxMap (AList.delete k m))
     = (if v = k then None else ix_walk (v # vs) (IxMap m))"
  by (simp add: delete_conv')

lemma ix_walk_empty: "vs \<noteq> [] \<Longrightarrow> ix_walk vs (IxMap []) = None"
  by (cases vs) simp_all

text \<open>addToIndex under a well-shaped index and a row with all key columns\<close>

lemma addToIndex_result:
  "cols \<noteq> [] \<Longrightarrow> list_all (\<lambda>c. has_prop c d) cols \<Longrightarrow> wf_ix (length cols) (IxMap m) \<Longrightarrow>
   (if ix_walk (key_vals cols d) (IxMap m) = None
    then fst (addToIndex cols d r m) = None
    else addToIndex cols d r m = (Some DuplicateKey, m))"
proof (induction cols arbitrary: m)
  case Nil
  then show ?case by simp
next
  case (Cons c cs)
  let ?k = "get_prop d c"
  from Cons.prems have wfm: "wf_ix (Suc (length cs)) (IxMap m)" and hc: "has_prop c d"
    and hcs: "list_all (\<lambda>c. has_prop c d) cs" by simp_all
  show ?case
  proof (cases "cs = []")
    case True
    with hc show ?thesis by (auto simp: key_vals_def Let_def split: option.splits)
  next
    case False
    then obtain d' where d': "length cs = Suc d'" by (cases cs) auto
    from False have kne: "key_vals cs d \<noteq> []" by (simp add: key_vals_def)
    show ?thesis
    proof (cases "map_of m ?k")
      case None
      from Cons.IH [OF False hcs, of "[]"] d' ix_walk_empty [OF kne]
      have "fst (addToIndex cs d r []) = None" by simp
      with None False hc show ?thesis
        by (auto simp: key_vals_Cons Let_def split: prod.splits)
    next
      case (Some n)
      from wf_ix_child [OF wfm Some] have wfn: "wf_ix (length cs) n" .
      with d' obtain sub0 where n: "n = IxMap sub0" by (cases n) auto
      from Cons.IH [OF False hcs, of sub0] wfn n
      have ih: "if ix_walk (key_vals cs d) (IxMap sub0) = None
                then fst (addToIndex cs d r sub0) = None
                else addToIndex cs d r sub0 = (Some DuplicateKey, sub0)" by simp
      from Some n have triv: "AList.update ?k (IxMap sub0) m = m" by (simp add: update_triv)
      show ?thesis
      proof (cases "ix_walk (key_vals cs d) (IxMap sub0) = None")
        case True
        with ih have "fst (addToIndex cs d r sub0) = None" by simp
        with True Some n False hc show ?thesis
          by (auto simp: key_vals_Cons Let_def split: prod.splits)
      next
        case nn: False
        with ih have "addToIndex cs d r sub0 = (Some DuplicateKey, sub0)" by simp
        with nn Some n False hc triv show ?thesis
          by (simp add: key_vals_Cons Let_def)
      qed
    qed
  qed
qed

lemma addToIndex_walk:
  "cols \<noteq> [] \<Longrightarrow> wf_ix (length cols) (IxMap m) \<Longrightarrow> fst (addToIndex cols d r m) = None \<Longrightarrow>
   length vs = length cols \<Longrightarrow>
   ix_walk vs (IxMap (snd (addToIndex cols d r m)))
     = (if vs = key_vals cols d then Some (IxRow r) else ix_walk vs (IxMap m))"
proof (induction cols arbitrary: m vs)
  case Nil
  then show ?case by simp
next
  case (Cons c cs)
  let ?k = "get_prop d c"
  from Cons.prems have wfm: "wf_ix (Suc (length cs)) (IxMap m)" by simp
  from Cons.prems obtain v vs' where vs: "vs = v # vs'" and len: "length vs' = length cs"
    by (cases vs) auto
  from Cons.prems have hc: "has_prop c d" by (auto split: if_splits)
  show ?case
  proof (cases "cs = []")
    case True
    with Cons.prems hc vs len show ?thesis
      by (auto simp: key_vals_def Let_def update_conv' split: if_splits)
  next
    case False
    then obtain d' where d': "length cs = Suc d'" by (cases cs) auto
    from len False have vne: "vs' \<noteq> []" by auto
    show ?thesis
    proof (cases "map_of m ?k")
      case None
      obtain e sub where a: "addToIndex cs d r [] = (e, sub)"
        by (cases "addToIndex cs d r []")
      with Cons.prems(3) None False hc have e: "e = None" by (simp add: Let_def)
      from Cons.IH [OF False _ _ len, of "[]"] d' a e ix_walk_empty [OF vne]
      have ih: "ix_walk vs' (IxMap sub) = (if vs' = key_vals cs d then Some (IxRow r) else None)"
        by simp
      have res: "snd (addToIndex (c # cs) d r m) = AList.update ?k (IxMap sub) m"
        using None False hc a by (simp add: Let_def)
      show ?thesis unfolding res vs ix_walk_Map_update using ih None
        by (auto simp: key_vals_def)
    next
      case (Some n)
      from wf_ix_child [OF wfm Some] have wfn: "wf_ix (length cs) n" .
      with d' obtain sub0 where n: "n = IxMap sub0" by (cases n) auto
      obtain e sub where a: "addToIndex cs d r sub0 = (e, sub)"
        by (cases "addToIndex cs d r sub0")
      with Cons.prems(3) Some n False hc have e: "e = None" by (simp add: Let_def)
      from Cons.IH [OF False _ _ len, of sub0] wfn n a e
      have ih: "ix_walk vs' (IxMap sub)
                  = (if vs' = key_vals cs d then Some (IxRow r) else ix_walk vs' (IxMap sub0))"
        by simp
      have res: "snd (addToIndex (c # cs) d r m) = AList.update ?k (IxMap sub) m"
        using Some n False hc a by (simp add: Let_def)
      show ?thesis unfolding res vs ix_walk_Map_update using ih Some n
        by (auto simp: key_vals_def)
    qed
  qed
qed

lemma removeFromIndex_wf:
  "cols \<noteq> [] \<Longrightarrow> wf_ix (length cols) (IxMap m) \<Longrightarrow>
   wf_ix (length cols) (IxMap (snd (removeFromIndex cols kd m)))"
proof (induction cols arbitrary: m)
  case Nil
  then show ?case by simp
next
  case (Cons c cs)
  let ?k = "get_prop kd c"
  from Cons.prems have wfm: "wf_ix (Suc (length cs)) (IxMap m)" by simp
  show ?case
  proof (cases "cs = []")
    case True
    from wf_ix_delete [OF wfm, of ?k] wfm True show ?thesis
      by (simp add: Let_def del: wf_ix.simps)
  next
    case False
    then obtain d' where d': "length cs = Suc d'" by (cases cs) auto
    show ?thesis
    proof (cases "map_of m ?k")
      case None
      with wfm False show ?thesis by (simp add: Let_def del: wf_ix.simps)
    next
      case (Some n)
      from wf_ix_child [OF wfm Some] have wfn: "wf_ix (length cs) n" .
      with d' obtain sub0 where n: "n = IxMap sub0" by (cases n) auto
      obtain res sub where a: "removeFromIndex cs kd sub0 = (res, sub)"
        by (cases "removeFromIndex cs kd sub0")
      from Cons.IH [OF False, of sub0] wfn n a
      have "wf_ix (length cs) (IxMap sub)" by simp
      from wf_ix_update [OF wfm this] wfm Some n False a show ?thesis
        by (simp add: Let_def del: wf_ix.simps)
    qed
  qed
qed

lemma removeFromIndex_walk:
  "cols \<noteq> [] \<Longrightarrow> list_all (\<lambda>c. has_prop c kd) cols \<Longrightarrow> wf_ix (length cols) (IxMap m) \<Longrightarrow>
   length vs = length cols \<Longrightarrow>
   (\<exists>b. fst (removeFromIndex cols kd m) = Inr b)
   \<and> ix_walk vs (IxMap (snd (removeFromIndex cols kd m)))
       = (if vs = key_vals cols kd then None else ix_walk vs (IxMap m))"
proof (induction cols arbitrary: m vs)
  case Nil
  then show ?case by simp
next
  case (Cons c cs)
  let ?k = "get_prop kd c"
  from Cons.prems have wfm: "wf_ix (Suc (length cs)) (IxMap m)" and hc: "has_prop c kd"
    and hcs: "list_all (\<lambda>c. has_prop c kd) cs" by simp_all
  from Cons.prems obtain v vs' where vs: "vs = v # vs'" and len: "length vs' = length cs"
    by (cases vs) auto
  show ?case
  proof (cases "cs = []")
    case True
    with hc vs len show ?thesis
      by (auto simp: key_vals_def Let_def delete_conv')
  next
    case False
    then obtain d' where d': "length cs = Suc d'" by (cases cs) auto
    show ?thesis
    proof (cases "map_of m ?k")
      case None
      with False hc vs show ?thesis by (auto simp: key_vals_Cons Let_def)
    next
      case (Some n)
      from wf_ix_child [OF wfm Some] have wfn: "wf_ix (length cs) n" .
      with d' obtain sub0 where n: "n = IxMap sub0" by (cases n) auto
      obtain res sub where a: "removeFromIndex cs kd sub0 = (res, sub)"
        by (cases "removeFromIndex cs kd sub0")
      from Cons.IH [OF False hcs _ len, of sub0] wfn n a
      have ih: "(\<exists>b. res = Inr b)
        \<and> ix_walk vs' (IxMap sub)
            = (if vs' = key_vals cs kd then None else ix_walk vs' (IxMap sub0))"
        by simp
      have r: "fst (removeFromIndex (c # cs) kd m) = res"
        "snd (removeFromIndex (c # cs) kd m) = AList.update ?k (IxMap sub) m"
        using Some n False hc a by (simp_all add: Let_def)
      show ?thesis unfolding r vs ix_walk_Map_update using ih Some n
        by (auto simp: key_vals_Cons)
    qed
  qed
qed

lemma entries_length: "wf_ix d n \<Longrightarrow> (p, r) \<in> set (ix_entries n) \<Longrightarrow> length p = d"
proof (induction d arbitrary: n p)
  case 0
  then show ?case by (cases n) auto
next
  case (Suc d)
  from Suc.prems obtain m where n: "n = IxMap m" by (cases n) auto
  from Suc.prems(2) n obtain v vs where p: "p = v # vs"
    by (cases p) (auto simp: entries_Map_Nil)
  from Suc.prems(2) n p obtain n' where "(v, n') \<in> set m" and e: "(vs, r) \<in> set (ix_entries n')"
    by (auto simp: entries_Map_Cons)
  with Suc.prems(1) n have "wf_ix d n'" by (auto simp: list_all_iff)
  from Suc.IH [OF this e] p show ?case by simp
qed

lemma entries_walk:
  "wf_ix d n \<Longrightarrow>
   ((p, r) \<in> set (ix_entries n)) = (length p = d \<and> ix_walk p n = Some (IxRow r))"
  using entries_length [of d n p r] walk_entries [of p n "IxRow r"] by auto

lemma consistent_iff:
  "consistent t =
     (wf_schema t \<and> distinct (all t)
      \<and> (\<forall>r \<in> set (all t). r < length (heap t) \<and> map fst (heap t ! r) = map fst (columns t))
      \<and> wf_ix (length (key t)) (IxMap (index t))
      \<and> (\<forall>p r. length p = length (key t) \<longrightarrow>
            (ix_walk p (IxMap (index t)) = Some (IxRow r))
              = (r \<in> set (all t) \<and> p = key_vals (key t) (row_fields t r))))"
proof (cases "wf_ix (length (key t)) (IxMap (index t))")
  case False
  then show ?thesis by (simp add: consistent_def)
next
  case True
  let ?E = "set (ix_entries (IxMap (index t)))"
  let ?kv = "\<lambda>r. key_vals (key t) (row_fields t r)"
  let ?W = "\<lambda>p r. ix_walk p (IxMap (index t)) = Some (IxRow r)"
  have len: "\<And>r. length (?kv r) = length (key t)"
    by (simp add: key_vals_def)
  note E = entries_walk [OF True]
  have "((\<forall>x \<in> ?E. case x of (p, r) \<Rightarrow> r \<in> set (all t) \<and> p = ?kv r)
          \<and> (\<forall>r \<in> set (all t). (?kv r, r) \<in> ?E))
      = (\<forall>p r. length p = length (key t) \<longrightarrow> ?W p r = (r \<in> set (all t) \<and> p = ?kv r))"
    (is "(?S \<and> ?C) = ?R")
  proof
    assume sc: "?S \<and> ?C"
    show ?R
    proof (intro allI impI iffI)
      fix p r assume l: "length p = length (key t)" and w: "?W p r"
      then have "(p, r) \<in> ?E" by (simp add: E)
      with sc show "r \<in> set (all t) \<and> p = ?kv r" by blast
    next
      fix p r assume "r \<in> set (all t) \<and> p = ?kv r"
      with sc have "(p, r) \<in> ?E" by blast
      then show "?W p r" by (simp add: E)
    qed
  next
    assume R: ?R
    have ?S
    proof (intro ballI, clarify)
      fix p r assume "(p, r) \<in> ?E"
      then have "length p = length (key t)" and "?W p r" by (simp_all add: E)
      with R show "r \<in> set (all t) \<and> p = ?kv r" by blast
    qed
    moreover have ?C
    proof
      fix r assume "r \<in> set (all t)"
      with R len [of r] have "?W (?kv r) r" by blast
      with len [of r] show "(?kv r, r) \<in> ?E" by (simp add: E)
    qed
    ultimately show "?S \<and> ?C" ..
  qed
  then show ?thesis unfolding consistent_def list_all_iff by simp
qed

subsection \<open>Calls keep a table consistent unless an add is rejected\<close>

lemma new_Table_consistent:
  "k \<noteq> [] \<Longrightarrow> set k \<subseteq> set (map fst cols) \<Longrightarrow> distinct (map fst cols) \<Longrightarrow>
   consistent (new_Table cols k)"
proof -
  assume k: "k \<noteq> []" and rest: "set k \<subseteq> set (map fst cols)" "distinct (map fst cols)"
  from k obtain d where "length k = Suc d" by (cases k) auto
  with k rest show ?thesis
    by (auto simp: consistent_def new_Table_def clear_def resetChanges_def wf_schema_def
        list_all_iff ix_entries.simps)
qed

lemma Row_keys_None:
  "Row_keys cols keys d = None \<Longrightarrow> c \<in> set keys \<Longrightarrow> has_prop c d"
  by (induction keys) (auto split: if_splits)

lemma Row_keys_Some:
  "Row_keys cols keys d = Some e \<Longrightarrow> e \<noteq> DuplicateKey"
  by (induction keys) (auto split: if_splits)

lemma get_prop_map: "c \<in> set cols \<Longrightarrow> get_prop (map (\<lambda>c. (c, f c)) cols) c = f c"
  by (induction cols) (auto simp: get_prop_def)

lemma has_own_map: "has_own c (map (\<lambda>c. (c, f c)) cols) = (c \<in> set cols)"
  by (induction cols) (auto simp: has_own_def)

lemma consistent_keys_declared: "consistent t \<Longrightarrow> set (key t) \<subseteq> set (map fst (columns t))"
  by (auto simp: consistent_def wf_schema_def list_all_iff)

lemma new_Row_Inr:
  assumes "new_Row d cols keys = Inr flds" and sub: "set keys \<subseteq> set cols"
  shows "map fst flds = cols" and "list_all (\<lambda>c. has_prop c flds) keys"
    and "key_vals keys flds = key_vals keys d" and "list_all (\<lambda>c. has_prop c d) keys"
proof -
  from assms have rk: "Row_keys cols keys d = None"
    and flds: "flds = map (\<lambda>c. (c, get_prop d c)) cols"
    by (auto simp: new_Row_def split: option.splits)
  from flds show "map fst flds = cols" by (simp add: comp_def)
  from sub flds show "list_all (\<lambda>c. has_prop c flds) keys"
    by (auto simp: list_all_iff has_own_map intro!: has_own_prop)
  from sub flds show "key_vals keys flds = key_vals keys d"
    by (auto simp: key_vals_def get_prop_map)
  from rk show "list_all (\<lambda>c. has_prop c d) keys"
    by (auto simp: list_all_iff dest: Row_keys_None)
qed

lemma new_Row_Inl: "new_Row d cols keys = Inl e \<Longrightarrow> e \<noteq> DuplicateKey"
  by (auto simp: new_Row_def split: option.splits dest: Row_keys_Some)

lemma row_fields_append:
  "row_fields (t\<lparr>heap := heap t @ [flds]\<rparr>) r
     = (if r < length (heap t) then row_fields t r else if r = length (heap t) then flds else [])"
  by (auto simp: row_fields_def nth_append)

text \<open>What add does, when the row can be made.\<close>

lemma add_unfold:
  assumes "new_Row d (map fst (columns t)) (key t) = Inr flds"
  shows "add d t =
    (case addToIndex (key t) flds (length (heap t)) (index t) of
       (Some e, m) \<Rightarrow>
         (Inl e, t\<lparr>heap := heap t @ [flds], all := set_add (length (heap t)) (all t),
                     added := set_add (length (heap t)) (added t), index := m\<rparr>)
     | (None, m) \<Rightarrow>
         (Inr (length (heap t)),
          t\<lparr>heap := heap t @ [flds], all := set_add (length (heap t)) (all t),
              added := set_add (length (heap t)) (added t), index := m, needSort := True\<rparr>))"
  using assms by (simp add: add_def Let_def split: prod.splits option.splits)

lemma add_consistent:
  assumes c: "consistent t" and nd: "fst (add d t) \<noteq> Inl DuplicateKey"
  shows "consistent (snd (add d t))"
proof (cases "new_Row d (map fst (columns t)) (key t)")
  case (Inl e)
  with c show ?thesis by (simp add: add_def)
next
  case (Inr flds)
  let ?new = "length (heap t)"
  let ?K = "key t"
  note ci = c [unfolded consistent_iff]
  from ci have ne: "?K \<noteq> []" by (simp add: wf_schema_def)
  from ci have wf: "wf_ix (length ?K) (IxMap (index t))" by simp
  note nr = new_Row_Inr [OF Inr consistent_keys_declared [OF c]]
  from addToIndex_result [OF ne nr(2) wf, of ?new]
  have res: "if ix_walk (key_vals ?K flds) (IxMap (index t)) = None
             then fst (addToIndex ?K flds ?new (index t)) = None
             else addToIndex ?K flds ?new (index t) = (Some DuplicateKey, index t)" .
  obtain e m where a: "addToIndex ?K flds ?new (index t) = (e, m)"
    by (cases "addToIndex ?K flds ?new (index t)")
  from nd a have "e \<noteq> Some DuplicateKey"
    by (auto simp: add_unfold [OF Inr] split: option.splits)
  with res a have e: "e = None" and free: "ix_walk (key_vals ?K flds) (IxMap (index t)) = None"
    by (auto split: if_splits)
  from ci have fresh: "?new \<notin> set (all t)" by auto
  let ?t' = "t\<lparr>heap := heap t @ [flds], all := all t @ [?new],
              added := set_add ?new (added t), index := m, needSort := True\<rparr>"
  from a e fresh have t': "snd (add d t) = ?t'"
    by (simp add: add_unfold [OF Inr] set_add_def)
  have rf: "\<And>r. row_fields ?t' r
     = (if r < ?new then row_fields t r else if r = ?new then flds else [])"
    by (auto simp: row_fields_def nth_append)
  from addToIndex_wf [OF ne wf, of flds ?new] a have wf': "wf_ix (length ?K) (IxMap m)" by simp
  have walk: "\<And>p. length p = length ?K \<Longrightarrow>
      ix_walk p (IxMap m) = (if p = key_vals ?K flds then Some (IxRow ?new)
                             else ix_walk p (IxMap (index t)))"
    using addToIndex_walk [OF ne wf, of flds ?new] a e by simp
  have old: "\<And>p r. length p = length ?K \<Longrightarrow>
      (ix_walk p (IxMap (index t)) = Some (IxRow r))
        = (r \<in> set (all t) \<and> p = key_vals ?K (row_fields t r))"
    using ci by blast
  have lt: "\<And>r. r \<in> set (all t) \<Longrightarrow> r < ?new" using ci by blast
  have "consistent ?t'"
    unfolding consistent_iff
  proof (intro conjI allI impI ballI)
    from ci show "wf_schema ?t'" by (simp add: wf_schema_def)
    from ci fresh show "distinct (all ?t')" by simp
    from wf' show "wf_ix (length (key ?t')) (IxMap (index ?t'))" by simp
  next
    fix r assume "r \<in> set (all ?t')"
    then have "r \<in> set (all t) \<or> r = ?new" by auto
    then show "r < length (heap ?t')" using lt [of r] by auto
  next
    fix r assume "r \<in> set (all ?t')"
    then have "r \<in> set (all t) \<or> r = ?new" by auto
    then show "map fst (heap ?t' ! r) = map fst (columns ?t')"
    proof
      assume "r \<in> set (all t)"
      with ci lt [OF this] show ?thesis by (simp add: nth_append)
    next
      assume "r = ?new"
      with nr(1) show ?thesis by simp
    qed
  next
    fix p :: "val list" and r assume len: "length p = length (key ?t')"
    then have len': "length p = length ?K" by simp
    show "(ix_walk p (IxMap (index ?t')) = Some (IxRow r))
        = (r \<in> set (all ?t') \<and> p = key_vals (key ?t') (row_fields ?t' r))"
    proof (cases "p = key_vals ?K flds")
      case True
      have "\<not> (r \<in> set (all t) \<and> p = key_vals ?K (row_fields t r))"
        using old [OF len', of r] free True by simp
      with True walk [OF len'] lt [of r] show ?thesis
        by (auto simp: rf)
    next
      case False
      with walk [OF len'] old [OF len', of r] lt [of r] show ?thesis
        by (auto simp: rf)
    qed
  qed
  with t' show ?thesis by simp
qed

lemma Row_keys_ok:
  "list_all (\<lambda>c. has_prop c d \<and> c \<in> set cols) keys \<Longrightarrow> Row_keys cols keys d = None"
  by (induction keys) auto

lemma add_duplicate:
  assumes c: "consistent t" and live: "r \<in> set (all t)"
    and full: "list_all (\<lambda>c. has_prop c d) (key t)"
    and same: "key_vals (key t) d = key_vals (key t) (row_fields t r)"
  shows "\<exists>flds. add d t =
           (Inl DuplicateKey,
            t\<lparr>heap := heap t @ [flds], all := all t @ [length (heap t)],
               added := set_add (length (heap t)) (added t)\<rparr>)"
proof -
  let ?K = "key t"
  let ?new = "length (heap t)"
  note ci = c [unfolded consistent_iff]
  from ci have ne: "?K \<noteq> []"
    and sub: "list_all (\<lambda>c. c \<in> set (map fst (columns t))) ?K"
    by (auto simp: wf_schema_def)
  from ci have wf: "wf_ix (length ?K) (IxMap (index t))" by simp
  from full sub have "list_all (\<lambda>c. has_prop c d \<and> c \<in> set (map fst (columns t))) ?K"
    by (auto simp: list_all_iff)
  then have "Row_keys (map fst (columns t)) ?K d = None" by (rule Row_keys_ok)
  then obtain flds where nr: "new_Row d (map fst (columns t)) ?K = Inr flds"
    by (simp add: new_Row_def)
  note f = new_Row_Inr [OF nr consistent_keys_declared [OF c]]
  have "length (key_vals ?K (row_fields t r)) = length ?K" by (simp add: key_vals_def)
  with ci live have "ix_walk (key_vals ?K (row_fields t r)) (IxMap (index t)) = Some (IxRow r)"
    by blast
  with f(3) same have "ix_walk (key_vals ?K flds) (IxMap (index t)) \<noteq> None" by simp
  with addToIndex_result [OF ne f(2) wf, of ?new]
  have a: "addToIndex ?K flds ?new (index t) = (Some DuplicateKey, index t)" by simp
  from ci have "?new \<notin> set (all t)" by auto
  with a have "add d t =
           (Inl DuplicateKey,
            t\<lparr>heap := heap t @ [flds], all := all t @ [?new],
               added := set_add ?new (added t)\<rparr>)"
    by (simp add: add_unfold [OF nr] set_add_def)
  then show ?thesis ..
qed

lemma has_own_names: "has_own c flds = (c \<in> set (map fst flds))"
  by (simp add: has_own_def map_of_eq_None_iff)

lemma update_names: "has_own k flds \<Longrightarrow> map fst (AList.update k v flds) = map fst flds"
  by (induction flds) (auto simp: has_own_def)

lemma assign_names: "map fst (snd (assign keys flds d)) = map fst flds"
proof (induction d arbitrary: flds)
  case Nil
  then show ?case by simp
next
  case (Cons p d)
  obtain k v where p: "p = (k, v)" by (cases p)
  show ?case
  proof (cases "has_own k flds \<and> k \<notin> set keys")
    case True
    with Cons.IH [of "AList.update k v flds"] p show ?thesis
      by (simp add: update_names)
  next
    case False
    with p show ?thesis by auto
  qed
qed

lemma assign_key_vals: "key_vals keys (snd (assign keys flds d)) = key_vals keys flds"
  by (simp add: key_vals_def assign_keeps_key)

lemma consistent_cong:
  "columns t' = columns t \<Longrightarrow> key t' = key t \<Longrightarrow> heap t' = heap t \<Longrightarrow> all t' = all t \<Longrightarrow>
   index t' = index t \<Longrightarrow> consistent t' = consistent t"
  by (simp add: consistent_def wf_schema_def row_fields_def)

text \<open>A change of the store at one row that keeps its names and its key values.\<close>

lemma consistent_heap_update:
  assumes c: "consistent t"
    and names: "map fst flds' = map fst (row_fields t row)"
    and kv: "key_vals (key t) flds' = key_vals (key t) (row_fields t row)"
  shows "consistent (t\<lparr>heap := (heap t)[row := flds']\<rparr>)"
proof -
  let ?t' = "t\<lparr>heap := (heap t)[row := flds']\<rparr>"
  note ci = c [unfolded consistent_iff]
  have kvs: "key_vals (key t) (row_fields ?t' r) = key_vals (key t) (row_fields t r)" for r
    using kv by (cases "r = row") (simp_all add: row_fields_def)
  have nms: "r < length (heap t) \<Longrightarrow> map fst (heap ?t' ! r) = map fst (heap t ! r)" for r
    using names by (cases "r = row") (simp_all add: row_fields_def)
  show ?thesis
    unfolding consistent_iff
  proof (intro conjI ballI)
    from ci show "wf_schema ?t'" by (simp add: wf_schema_def)
    from ci show "distinct (all ?t')" by simp
    from ci show "wf_ix (length (key ?t')) (IxMap (index ?t'))" by simp
    from ci show "\<forall>p r. length p = length (key ?t') \<longrightarrow>
          (ix_walk p (IxMap (index ?t')) = Some (IxRow r))
            = (r \<in> set (all ?t') \<and> p = key_vals (key ?t') (row_fields ?t' r))"
      using kvs by simp
  next
    fix r assume "r \<in> set (all ?t')"
    with ci have "r < length (heap t)" and "map fst (heap t ! r) = map fst (columns t)" by auto
    with nms [of r] show "r < length (heap ?t')" and "map fst (heap ?t' ! r) = map fst (columns ?t')"
      by simp_all
  qed
qed

lemma update_consistent:
  assumes "consistent t"
  shows "consistent (snd (update r d t))"
proof (cases "r \<in> set (all t) \<and> \<not> equal (row_fields t r) (spread (row_fields t r) d)")
  case False
  with assms show ?thesis by (auto simp: update_def Let_def)
next
  case True
  obtain e f where a: "assign (key t) (row_fields t r) d = (e, f)"
    by (cases "assign (key t) (row_fields t r) d")
  let ?t1 = "t\<lparr>heap := (heap t)[r := f]\<rparr>"
  have f: "f = snd (assign (key t) (row_fields t r) d)" using a by simp
  have h: "consistent ?t1"
    by (rule consistent_heap_update [OF assms]) (simp_all add: f assign_names assign_key_vals)
  have eqs: "columns (snd (update r d t)) = columns ?t1" "key (snd (update r d t)) = key ?t1"
    "heap (snd (update r d t)) = heap ?t1" "all (snd (update r d t)) = all ?t1"
    "index (snd (update r d t)) = index ?t1"
    using True a by (auto simp: update_def Let_def split: option.splits)
  from consistent_cong [OF eqs] h show ?thesis by simp
qed

lemma row_has_keys:
  assumes "consistent t" and "r \<in> set (all t)"
  shows "list_all (\<lambda>c. has_prop c (row_fields t r)) (key t)"
proof -
  note ci = assms(1) [unfolded consistent_iff]
  from ci assms(2) have "r < length (heap t)" and "map fst (heap t ! r) = map fst (columns t)"
    by auto
  moreover from ci have "list_all (\<lambda>c. c \<in> set (map fst (columns t))) (key t)"
    by (simp add: wf_schema_def)
  ultimately show ?thesis
    by (auto simp: list_all_iff has_own_names row_fields_def intro!: has_own_prop)
qed

lemma delete_row_consistent:
  assumes c: "consistent t"
  shows "consistent (snd (delete_row r t))"
proof (cases "r \<in> set (all t)")
  case False
  with c show ?thesis by (simp add: delete_row_def)
next
  case True
  let ?K = "key t"
  let ?kd = "row_fields t r"
  note ci = c [unfolded consistent_iff]
  from ci have ne: "?K \<noteq> []" by (simp add: wf_schema_def)
  from ci have wf: "wf_ix (length ?K) (IxMap (index t))" by simp
  note hk = row_has_keys [OF c True]
  obtain res m where a: "removeFromIndex ?K ?kd (index t) = (res, m)"
    by (cases "removeFromIndex ?K ?kd (index t)")
  let ?t' = "t\<lparr>all := removeAll r (all t), index := m\<rparr>"
  have eqs: "columns (snd (delete_row r t)) = columns ?t'" "key (snd (delete_row r t)) = key ?t'"
    "heap (snd (delete_row r t)) = heap ?t'" "all (snd (delete_row r t)) = all ?t'"
    "index (snd (delete_row r t)) = index ?t'"
    using True a by (auto simp: delete_row_def Let_def set_delete_def row_fields_def split: sum.splits)
  from removeFromIndex_wf [OF ne wf, of ?kd] a have wf': "wf_ix (length ?K) (IxMap m)" by simp
  have walk: "ix_walk p (IxMap m)
      = (if p = key_vals ?K ?kd then None else ix_walk p (IxMap (index t)))"
    if "length p = length ?K" for p
    using removeFromIndex_walk [OF ne hk wf that] a by simp
  have old: "(ix_walk p (IxMap (index t)) = Some (IxRow r'))
        = (r' \<in> set (all t) \<and> p = key_vals ?K (row_fields t r'))"
    if "length p = length ?K" for p r'
    using ci that by blast
  have rf: "row_fields ?t' r' = row_fields t r'" for r'
    by (simp add: row_fields_def)
  have "consistent ?t'"
    unfolding consistent_iff
  proof (intro conjI ballI allI impI)
    from ci show "wf_schema ?t'" by (simp add: wf_schema_def)
    from ci show "distinct (all ?t')" by (simp add: distinct_removeAll)
    from wf' show "wf_ix (length (key ?t')) (IxMap (index ?t'))" by simp
  next
    fix r' assume "r' \<in> set (all ?t')"
    with ci show "r' < length (heap ?t')" and "map fst (heap ?t' ! r') = map fst (columns ?t')"
      by auto
  next
    fix p :: "val list" and r' assume "length p = length (key ?t')"
    then have len: "length p = length ?K" by simp
    show "(ix_walk p (IxMap (index ?t')) = Some (IxRow r'))
        = (r' \<in> set (all ?t') \<and> p = key_vals (key ?t') (row_fields ?t' r'))"
    proof (cases "p = key_vals ?K ?kd")
      case same: True
      from old [OF len, of r] True same
      have "ix_walk p (IxMap (index t)) = Some (IxRow r)" by simp
      with old [OF len, of r'] have "r' \<in> set (all t) \<and> p = key_vals ?K (row_fields t r') \<Longrightarrow> r' = r"
        by simp
      with walk [OF len] same show ?thesis by (auto simp: rf)
    next
      case False
      with walk [OF len] old [OF len, of r'] show ?thesis by (auto simp: rf)
    qed
  qed
  with consistent_cong [OF eqs] show ?thesis by simp
qed

lemma resetChanges_consistent: "consistent t \<Longrightarrow> consistent (resetChanges t)"
proof -
  have "consistent (resetChanges t) = consistent t"
    by (rule consistent_cong) (simp_all add: resetChanges_def)
  then show "consistent t \<Longrightarrow> consistent (resetChanges t)" by simp
qed

lemma clear_consistent: "wf_schema t \<Longrightarrow> consistent (clear t)"
proof -
  assume w: "wf_schema t"
  then obtain d where "length (key t) = Suc d" by (cases "key t") (auto simp: wf_schema_def)
  with w show ?thesis
    by (simp add: consistent_def clear_def resetChanges_def wf_schema_def ix_entries.simps)
qed

lemma set_insert_by: "set (insert_by cmp x ys) = insert x (set ys)"
  by (induction ys) auto

lemma distinct_insert_by: "distinct (insert_by cmp x ys) = (x \<notin> set ys \<and> distinct ys)"
  by (induction ys) (auto simp: set_insert_by)

lemma fold_insert_by:
  "set (fold (insert_by cmp) xs acc) = set xs \<union> set acc
   \<and> distinct (fold (insert_by cmp) xs acc) = (distinct xs \<and> distinct acc \<and> set xs \<inter> set acc = {})"
  by (induction xs arbitrary: acc) (auto simp: set_insert_by distinct_insert_by)

lemma set_sort_by: "set (sort_by cmp xs) = set xs"
  by (simp add: sort_by_def fold_insert_by)

lemma distinct_sort_by: "distinct (sort_by cmp xs) = distinct xs"
  by (simp add: sort_by_def fold_insert_by)

lemma consistent_perm:
  "set l = set (all t) \<Longrightarrow> distinct l \<Longrightarrow> consistent t \<Longrightarrow> consistent (t\<lparr>all := l\<rparr>)"
  unfolding consistent_iff by (simp add: wf_schema_def row_fields_def)

lemma data_consistent: "consistent t \<Longrightarrow> consistent (snd (data sn t))"
proof -
  assume c: "consistent t"
  let ?l = "sort_by (\<lambda>a b. sortFn sn (key t) (row_fields t a) (row_fields t b)) (all t)"
  from c have "distinct (all t)" by (simp add: consistent_def)
  then have "consistent (t\<lparr>all := ?l\<rparr>)"
    by (intro consistent_perm c) (simp_all add: set_sort_by distinct_sort_by)
  moreover have "consistent (t\<lparr>all := ?l, needSort := False\<rparr>) = consistent (t\<lparr>all := ?l\<rparr>)"
    by (rule consistent_cong) simp_all
  ultimately show ?thesis using c by (simp add: data_def Let_def)
qed

lemma add_after_find_None:
  assumes c: "consistent t" and f: "find d t = Inr None"
  shows "fst (add d t) \<noteq> Inl DuplicateKey"
proof (cases "new_Row d (map fst (columns t)) (key t)")
  case (Inl e)
  with new_Row_Inl [OF Inl] show ?thesis by (simp add: add_def)
next
  case (Inr flds)
  note nr = new_Row_Inr [OF Inr consistent_keys_declared [OF c]]
  from c have ne: "key t \<noteq> []" by (rule consistent_key)
  from c have wf: "wf_ix (length (key t)) (IxMap (index t))" by (rule consistent_wf)
  from seek_walk [OF ne nr(4) wf] f
  have "ix_walk (key_vals (key t) d) (IxMap (index t)) = None" by (simp add: find_def)
  with nr(3) addToIndex_result [OF ne nr(2) wf, of "length (heap t)"]
  have "fst (addToIndex (key t) flds (length (heap t)) (index t)) = None" by simp
  then show ?thesis
    by (auto simp: add_unfold [OF Inr] split: prod.splits option.splits)
qed

lemma get_row_consistent:
  assumes c: "consistent t"
  shows "consistent (snd (get_row d t))"
proof (cases "find d t")
  case (Inl e)
  with c show ?thesis by (simp add: get_row_def)
next
  case (Inr res)
  show ?thesis
  proof (cases res)
    case None
    from add_consistent [OF c add_after_find_None [OF c]] Inr None
    have "consistent (snd (add d t))" by simp
    with Inr None show ?thesis
      by (auto simp: get_row_def split: prod.splits sum.splits)
  next
    case (Some n)
    with Inr c show ?thesis by (simp add: get_row_def)
  qed
qed

lemma load_each_consistent:
  "consistent t \<Longrightarrow> fst (load_each types recs t) \<noteq> Some DuplicateKey \<Longrightarrow>
   consistent (snd (load_each types recs t))"
proof (induction recs arbitrary: t)
  case Nil
  then show ?case by simp
next
  case (Cons ob obs)
  let ?a = "add (deserialize types (columns t) ob) t"
  show ?case
  proof (cases "fst ?a")
    case (Inl e)
    with Cons.prems(2) have "fst ?a \<noteq> Inl DuplicateKey"
      by (auto split: prod.splits sum.splits)
    from add_consistent [OF Cons.prems(1) this] Inl show ?thesis
      by (auto split: prod.splits sum.splits)
  next
    case (Inr row)
    then have "fst ?a \<noteq> Inl DuplicateKey" by simp
    from add_consistent [OF Cons.prems(1) this] have c': "consistent (snd ?a)" .
    from Cons.prems(2) Inr have "fst (load_each types obs (snd ?a)) \<noteq> Some DuplicateKey"
      by (auto split: prod.splits sum.splits)
    from Cons.IH [OF c' this] Inr show ?thesis
      by (auto split: prod.splits sum.splits)
  qed
qed

lemma clear_schema: "wf_schema (clear t) = wf_schema t"
  by (simp add: clear_def resetChanges_def wf_schema_def)

lemma load_consistent:
  assumes "wf_schema t" and "fst (load types recs t) \<noteq> Inl DuplicateKey"
  shows "consistent (snd (load types recs t))"
proof -
  let ?l = "load_each types recs (clear t)"
  from assms(2) have "fst ?l \<noteq> Some DuplicateKey"
    by (auto simp: load_def split: prod.splits option.splits)
  from load_each_consistent [OF clear_consistent [OF assms(1)] this]
  have c: "consistent (snd ?l)" .
  from c resetChanges_consistent [OF c] show ?thesis
    by (auto simp: load_def split: prod.splits option.splits)
qed

lemma serialize_consistent: "consistent t \<Longrightarrow> consistent (snd (serialize sn types t))"
  using data_consistent [of t sn] by (auto simp: serialize_def split: prod.splits)

lemma consistent_schema: "consistent t \<Longrightarrow> wf_schema t"
  by (simp add: consistent_def)

lemma exec_consistent:
  "consistent t \<Longrightarrow> \<not> rejected types x t \<Longrightarrow> consistent (exec sn types x t)"
  by (cases x)
     (simp_all add: rejected_def add_consistent update_consistent delete_row_consistent
        get_row_consistent data_consistent serialize_consistent load_consistent
        clear_consistent resetChanges_consistent consistent_schema)

lemma run_consistent:
  "consistent t \<Longrightarrow> accepted sn types ops t \<Longrightarrow> consistent (run sn types ops t)"
  unfolding run_def
  by (induction ops arbitrary: t) (simp_all add: exec_consistent)

lemma ix_rows_entries: "ix_rows n = map snd (ix_entries n)"
  by (induction n) (auto simp: ix_entries.simps map_concat comp_def case_prod_beta
      intro!: arg_cong [where f = concat])

lemma index_reaches_live_rows:
  assumes c: "consistent t"
  shows "set (ix_rows (IxMap (index t))) = set (all t)
    \<and> (\<forall>r \<in> set (all t). find (row_fields t r) t = Inr (Some (IxRow r)))"
proof
  from consistent_sound [OF c] consistent_complete [OF c]
  show "set (ix_rows (IxMap (index t))) = set (all t)"
    unfolding ix_rows_entries by force
next
  show "\<forall>r \<in> set (all t). find (row_fields t r) t = Inr (Some (IxRow r))"
  proof
    fix r assume live: "r \<in> set (all t)"
    note ci = c [unfolded consistent_iff]
    have "length (key_vals (key t) (row_fields t r)) = length (key t)" by (simp add: key_vals_def)
    with ci live have "ix_walk (key_vals (key t) (row_fields t r)) (IxMap (index t)) = Some (IxRow r)"
      by blast
    with seek_walk [OF consistent_key [OF c] row_has_keys [OF c live] consistent_wf [OF c]]
    show "find (row_fields t r) t = Inr (Some (IxRow r))" by (simp add: find_def)
  qed
qed

subsection \<open>The order of the rows read\<close>

lemma js_lt_VStr [simp]: "js_lt sn (VStr x) (VStr y) = str_lt x y"
  by (simp add: js_lt_def)

lemma js_lt_VNum [simp]: "js_lt sn (VNum x) (VNum y) = (x < y)"
  by (simp add: js_lt_def)

lemma ordered_vals_numbers:
  assumes "\<forall>v \<in> V. \<exists>n. v = VNum n"
  shows "ordered_vals sn V"
  unfolding ordered_vals_def
proof (intro ballI conjI impI)
  fix a b assume "a \<in> V" "b \<in> V" "js_lt sn a b"
  with assms obtain x y where "a = VNum x" "b = VNum y" by blast
  with \<open>js_lt sn a b\<close> show "\<not> js_lt sn b a" by simp
next
  fix a b assume "a \<in> V" "b \<in> V" and n: "\<not> js_lt sn a b" "\<not> js_lt sn b a"
  with assms obtain x y where "a = VNum x" "b = VNum y" by blast
  with n show "a = b" by simp
next
  fix a b c assume "a \<in> V" "b \<in> V" "c \<in> V" and l: "js_lt sn a b" "js_lt sn b c"
  with assms obtain x y z where "a = VNum x" "b = VNum y" "c = VNum z" by blast
  with l show "js_lt sn a c" by simp
qed

lemma sortFn_Cons_le:
  "(sortFn sn (c # cs) a b \<le> 0)
     = (js_lt sn (get_prop a c) (get_prop b c)
        \<or> (\<not> js_lt sn (get_prop b c) (get_prop a c) \<and> sortFn sn cs a b \<le> 0))"
  by (simp add: Let_def)

lemma sortFn_Cons_lt:
  "(sortFn sn (c # cs) a b < 0)
     = (js_lt sn (get_prop a c) (get_prop b c)
        \<or> (\<not> js_lt sn (get_prop b c) (get_prop a c) \<and> sortFn sn cs a b < 0))"
  by (simp add: Let_def)

lemma sortFn_swap: "\<not> sortFn sn cols a b < 0 \<Longrightarrow> sortFn sn cols b a \<le> 0"
proof (induction cols)
  case Nil
  then show ?case by simp
next
  case (Cons c cs)
  then show ?case unfolding sortFn_Cons_le sortFn_Cons_lt by blast
qed

lemma sortFn_trans:
  assumes "\<forall>c \<in> set cols. ordered_vals sn {get_prop a c, get_prop b c, get_prop d c}"
    and "sortFn sn cols a b \<le> 0" and "sortFn sn cols b d \<le> 0"
  shows "sortFn sn cols a d \<le> 0"
  using assms
proof (induction cols)
  case Nil
  then show ?case by simp
next
  case (Cons c cs)
  let ?a = "get_prop a c" and ?b = "get_prop b c" and ?d = "get_prop d c"
  from Cons.prems(1) have o: "ordered_vals sn {?a, ?b, ?d}"
    and o': "\<forall>c \<in> set cs. ordered_vals sn {get_prop a c, get_prop b c, get_prop d c}" by simp_all
  have asym: "\<And>x y. x \<in> {?a, ?b, ?d} \<Longrightarrow> y \<in> {?a, ?b, ?d} \<Longrightarrow> js_lt sn x y \<Longrightarrow> \<not> js_lt sn y x"
    using o unfolding ordered_vals_def by blast
  have tot: "\<And>x y. x \<in> {?a, ?b, ?d} \<Longrightarrow> y \<in> {?a, ?b, ?d} \<Longrightarrow>
      \<not> js_lt sn x y \<Longrightarrow> \<not> js_lt sn y x \<Longrightarrow> x = y"
    using o unfolding ordered_vals_def by blast
  have tr: "\<And>x y z. x \<in> {?a, ?b, ?d} \<Longrightarrow> y \<in> {?a, ?b, ?d} \<Longrightarrow> z \<in> {?a, ?b, ?d} \<Longrightarrow>
      js_lt sn x y \<Longrightarrow> js_lt sn y z \<Longrightarrow> js_lt sn x z"
    using o unfolding ordered_vals_def by blast
  have neg: "\<not> js_lt sn x z"
    if "x \<in> {?a, ?b, ?d}" "y \<in> {?a, ?b, ?d}" "z \<in> {?a, ?b, ?d}"
      "\<not> js_lt sn x y" "\<not> js_lt sn y z" for x y z
  proof
    assume xz: "js_lt sn x z"
    show False
    proof (cases "js_lt sn y x")
      case True
      from tr [OF that(2,1,3) True xz] that(5) show False by simp
    next
      case False
      from tot [OF that(1,2,4) False] xz that(5) show False by simp
    qed
  qed
  from Cons.prems(2) have ab: "js_lt sn ?a ?b \<or> (\<not> js_lt sn ?b ?a \<and> sortFn sn cs a b \<le> 0)"
    unfolding sortFn_Cons_le .
  from Cons.prems(3) have bd: "js_lt sn ?b ?d \<or> (\<not> js_lt sn ?d ?b \<and> sortFn sn cs b d \<le> 0)"
    unfolding sortFn_Cons_le .
  show ?case
  proof (cases "js_lt sn ?a ?d")
    case True
    then show ?thesis unfolding sortFn_Cons_le by simp
  next
    case nad: False
    have nda: "\<not> js_lt sn ?d ?a"
    proof
      assume da: "js_lt sn ?d ?a"
      from ab show False
      proof
        assume "js_lt sn ?a ?b"
        with asym [of ?a ?b] have nba: "\<not> js_lt sn ?b ?a" by simp
        from bd have "\<not> js_lt sn ?d ?b" using asym [of ?b ?d] by auto
        from neg [of ?d ?b ?a, OF _ _ _ this nba] da show False by simp
      next
        assume "\<not> js_lt sn ?b ?a \<and> sortFn sn cs a b \<le> 0"
        then have nba: "\<not> js_lt sn ?b ?a" ..
        from bd have "\<not> js_lt sn ?d ?b" using asym [of ?b ?d] by auto
        from neg [of ?d ?b ?a, OF _ _ _ this nba] da show False by simp
      qed
    qed
    have nab: "\<not> js_lt sn ?a ?b"
    proof
      assume "js_lt sn ?a ?b"
      moreover from bd have "\<not> js_lt sn ?d ?b" using asym [of ?b ?d] by auto
      ultimately show False using neg [of ?a ?d ?b, OF _ _ _ nad] by simp
    qed
    have nbd: "\<not> js_lt sn ?b ?d"
    proof
      assume "js_lt sn ?b ?d"
      moreover from ab nab have "\<not> js_lt sn ?b ?a" by simp
      ultimately show False using neg [of ?b ?a ?d, OF _ _ _ _ nad] by simp
    qed
    from ab nab bd nbd have "sortFn sn cs a b \<le> 0" "sortFn sn cs b d \<le> 0" by simp_all
    with Cons.IH [OF o'] have "sortFn sn cs a d \<le> 0" by simp
    with nad nda show ?thesis unfolding sortFn_Cons_le by simp
  qed
qed

lemma sorted_insert_by:
  assumes tr: "\<And>a b c. a \<in> S \<Longrightarrow> b \<in> S \<Longrightarrow> c \<in> S \<Longrightarrow> cmp a b \<le> 0 \<Longrightarrow> cmp b c \<le> 0 \<Longrightarrow> cmp a c \<le> 0"
    and sw: "\<And>a b. \<not> cmp a b < 0 \<Longrightarrow> cmp b a \<le> (0::int)"
  shows "x \<in> S \<Longrightarrow> set ys \<subseteq> S \<Longrightarrow> sorted_wrt (\<lambda>a b. cmp a b \<le> 0) ys \<Longrightarrow>
         sorted_wrt (\<lambda>a b. cmp a b \<le> 0) (insert_by cmp x ys)"
proof (induction ys)
  case Nil
  then show ?case by simp
next
  case (Cons y ys)
  show ?case
  proof (cases "cmp x y < 0")
    case True
    then have xy: "cmp x y \<le> 0" by simp
    have "\<forall>z \<in> set ys. cmp x z \<le> 0"
    proof
      fix z assume z: "z \<in> set ys"
      with Cons.prems have "cmp y z \<le> 0" by simp
      from tr [OF _ _ _ xy this] Cons.prems z show "cmp x z \<le> 0" by auto
    qed
    with True xy Cons.prems show ?thesis by simp
  next
    case False
    from sw [OF False] have yx: "cmp y x \<le> 0" .
    from Cons have "sorted_wrt (\<lambda>a b. cmp a b \<le> 0) (insert_by cmp x ys)" by simp
    with False yx Cons.prems show ?thesis by (auto simp: set_insert_by)
  qed
qed

lemma sorted_fold_insert_by:
  assumes tr: "\<And>a b c. a \<in> S \<Longrightarrow> b \<in> S \<Longrightarrow> c \<in> S \<Longrightarrow> cmp a b \<le> 0 \<Longrightarrow> cmp b c \<le> 0 \<Longrightarrow> cmp a c \<le> 0"
    and sw: "\<And>a b. \<not> cmp a b < 0 \<Longrightarrow> cmp b a \<le> (0::int)"
  shows "set xs \<subseteq> S \<Longrightarrow> set acc \<subseteq> S \<Longrightarrow> sorted_wrt (\<lambda>a b. cmp a b \<le> 0) acc \<Longrightarrow>
         sorted_wrt (\<lambda>a b. cmp a b \<le> 0) (fold (insert_by cmp) xs acc)"
proof (induction xs arbitrary: acc)
  case Nil
  then show ?case by simp
next
  case (Cons x xs)
  have "sorted_wrt (\<lambda>a b. cmp a b \<le> 0) (insert_by cmp x acc)"
  proof (rule sorted_insert_by [of S cmp])
    show "\<And>a b c. a \<in> S \<Longrightarrow> b \<in> S \<Longrightarrow> c \<in> S \<Longrightarrow> cmp a b \<le> 0 \<Longrightarrow> cmp b c \<le> 0 \<Longrightarrow> cmp a c \<le> 0"
      by (rule tr)
    show "\<And>a b. \<not> cmp a b < 0 \<Longrightarrow> cmp b a \<le> 0" by (rule sw)
    from Cons.prems show "x \<in> S" "set acc \<subseteq> S" "sorted_wrt (\<lambda>a b. cmp a b \<le> 0) acc"
      by simp_all
  qed
  moreover from Cons.prems have "set (insert_by cmp x acc) \<subseteq> S" by (simp add: set_insert_by)
  ultimately show ?case using Cons.IH [of "insert_by cmp x acc"] Cons.prems by simp
qed

lemma key_le_trans:
  assumes ko: "keys_ordered sn t" and m: "a \<in> set (all t)" "b \<in> set (all t)" "c \<in> set (all t)"
    and le: "key_le sn t a b" "key_le sn t b c"
  shows "key_le sn t a c"
proof -
  have "\<forall>col \<in> set (key t). ordered_vals sn
      {get_prop (row_fields t a) col, get_prop (row_fields t b) col, get_prop (row_fields t c) col}"
  proof
    fix col assume "col \<in> set (key t)"
    with ko have o: "ordered_vals sn ((\<lambda>r. get_prop (row_fields t r) col) ` set (all t))"
      by (simp add: keys_ordered_def)
    have sub: "{get_prop (row_fields t a) col, get_prop (row_fields t b) col,
        get_prop (row_fields t c) col} \<subseteq> (\<lambda>r. get_prop (row_fields t r) col) ` set (all t)"
      using m by auto
    from o sub show "ordered_vals sn
      {get_prop (row_fields t a) col, get_prop (row_fields t b) col, get_prop (row_fields t c) col}"
      unfolding ordered_vals_def by (meson subsetD)
  qed
  from sortFn_trans [OF this] le show ?thesis by (simp add: key_le_def)
qed

lemma data_sorted:
  assumes fo: "fresh_order sn t" and ko: "keys_ordered sn t"
  shows "sorted_wrt (key_le sn t) (fst (data sn t))
    \<and> set (fst (data sn t)) = set (all t)
    \<and> distinct (fst (data sn t)) = distinct (all t)"
proof (cases "needSort t")
  case False
  with fo show ?thesis by (simp add: data_def fresh_order_def)
next
  case True
  let ?cmp = "\<lambda>a b. sortFn sn (key t) (row_fields t a) (row_fields t b)"
  have d: "fst (data sn t) = sort_by ?cmp (all t)"
    using True by (simp add: data_def Let_def)
  have "sorted_wrt (\<lambda>a b. ?cmp a b \<le> 0) (fold (insert_by ?cmp) (all t) [])"
  proof (rule sorted_fold_insert_by [of "set (all t)"])
    fix a b c assume "a \<in> set (all t)" "b \<in> set (all t)" "c \<in> set (all t)"
      "?cmp a b \<le> 0" "?cmp b c \<le> 0"
    with key_le_trans [OF ko, of a b c] show "?cmp a c \<le> 0" by (simp add: key_le_def)
  next
    fix a b assume "\<not> ?cmp a b < 0"
    then show "?cmp b a \<le> 0" by (rule sortFn_swap)
  qed simp_all
  then have "sorted_wrt (key_le sn t) (sort_by ?cmp (all t))"
    unfolding sort_by_def key_le_def [abs_def] .
  then show ?thesis unfolding d by (simp add: set_sort_by distinct_sort_by)
qed

lemma sortFn_cong:
  "\<forall>c \<in> set cols. get_prop a c = get_prop a' c \<and> get_prop b c = get_prop b' c \<Longrightarrow>
   sortFn sn cols a b = sortFn sn cols a' b'"
  by (induction cols) (simp_all add: Let_def)

lemma fresh_order_cong:
  assumes "key t' = key t" "all t' = all t" "needSort t' = needSort t"
    and "\<And>r. key_vals (key t) (row_fields t' r) = key_vals (key t) (row_fields t r)"
  shows "fresh_order sn t' = fresh_order sn t"
proof -
  have "get_prop (row_fields t' r) c = get_prop (row_fields t r) c" if "c \<in> set (key t)" for r c
    using assms(4) [of r] that by (simp add: key_vals_def)
  then have "sortFn sn (key t) (row_fields t' a) (row_fields t' b)
      = sortFn sn (key t) (row_fields t a) (row_fields t b)" for a b
    by (intro sortFn_cong) simp
  then have "key_le sn t' a b = key_le sn t a b" for a b
    unfolding key_le_def assms(1) by simp
  then have "key_le sn t' = key_le sn t" by (intro ext)
  with assms(2,3) show ?thesis by (simp add: fresh_order_def)
qed

lemma add_accepted:
  assumes c: "consistent t" and nd: "fst (add d t) \<noteq> Inl DuplicateKey"
  shows "snd (add d t) = t \<or> needSort (snd (add d t))"
proof (cases "new_Row d (map fst (columns t)) (key t)")
  case (Inl e)
  then show ?thesis by (simp add: add_def)
next
  case (Inr flds)
  note nr = new_Row_Inr [OF Inr consistent_keys_declared [OF c]]
  from addToIndex_result [OF consistent_key [OF c] nr(2) consistent_wf [OF c], of "length (heap t)"]
  have "fst (addToIndex (key t) flds (length (heap t)) (index t)) = None
        \<or> addToIndex (key t) flds (length (heap t)) (index t) = (Some DuplicateKey, index t)"
    by (auto split: if_splits)
  with nd show ?thesis
    by (auto simp: add_unfold [OF Inr] split: prod.splits option.splits)
qed

lemma add_fresh_order:
  "consistent t \<Longrightarrow> fresh_order sn t \<Longrightarrow> fst (add d t) \<noteq> Inl DuplicateKey \<Longrightarrow>
   fresh_order sn (snd (add d t))"
  using add_accepted [of t d] by (auto simp: fresh_order_def)

lemma update_fresh_order:
  assumes "fresh_order sn t"
  shows "fresh_order sn (snd (update r d t))"
proof (cases "r \<in> set (all t) \<and> \<not> equal (row_fields t r) (spread (row_fields t r) d)")
  case False
  with assms show ?thesis by (auto simp: update_def Let_def)
next
  case True
  obtain e f where a: "assign (key t) (row_fields t r) d = (e, f)"
    by (cases "assign (key t) (row_fields t r) d")
  then have f: "f = snd (assign (key t) (row_fields t r) d)" by simp
  let ?u = "snd (update r d t)"
  have eqs: "key ?u = key t" "all ?u = all t" "needSort ?u = needSort t"
    "heap ?u = (heap t)[r := f]"
    using True a by (auto simp: update_def Let_def split: option.splits)
  have "key_vals (key t) (row_fields ?u r') = key_vals (key t) (row_fields t r')" for r'
  proof (cases "r' = r \<and> r < length (heap t)")
    case True
    then have "row_fields ?u r' = f" and "row_fields t r' = row_fields t r"
      by (simp_all add: row_fields_def eqs(4))
    then show ?thesis by (simp add: f assign_key_vals)
  next
    case False
    then have "row_fields ?u r' = row_fields t r'"
      by (auto simp: row_fields_def eqs(4))
    then show ?thesis by simp
  qed
  from fresh_order_cong [OF eqs(1-3) this] assms show ?thesis by simp
qed

lemma delete_row_fresh_order:
  assumes "fresh_order sn t"
  shows "fresh_order sn (snd (delete_row r t))"
proof (cases "r \<in> set (all t)")
  case False
  with assms show ?thesis by (simp add: delete_row_def)
next
  case True
  let ?u = "snd (delete_row r t)"
  have eqs: "key ?u = key t" "all ?u = removeAll r (all t)" "needSort ?u = needSort t"
    "heap ?u = heap t"
    using True by (auto simp: delete_row_def Let_def set_delete_def split: prod.splits sum.splits)
  have "key_le sn ?u = key_le sn t"
    by (intro ext) (simp add: key_le_def row_fields_def eqs)
  moreover have "sorted_wrt (key_le sn t) (all t) \<Longrightarrow> sorted_wrt (key_le sn t) (removeAll r (all t))"
    by (simp add: removeAll_filter_not_eq sorted_wrt_filter)
  ultimately show ?thesis using assms by (auto simp: fresh_order_def eqs)
qed

lemma data_fresh_order:
  assumes "fresh_order sn t" and "keys_ordered sn t"
  shows "fresh_order sn (snd (data sn t))"
proof (cases "needSort t")
  case False
  with assms show ?thesis by (simp add: data_def)
next
  case True
  let ?u = "snd (data sn t)"
  have eqs: "all ?u = fst (data sn t)" "key ?u = key t" "heap ?u = heap t"
    by (simp_all add: data_def Let_def)
  have "key_le sn ?u = key_le sn t"
    by (intro ext) (simp add: key_le_def row_fields_def eqs)
  with data_sorted [OF assms] show ?thesis by (simp add: fresh_order_def eqs)
qed

lemma serialize_fresh_order:
  "fresh_order sn t \<Longrightarrow> keys_ordered sn t \<Longrightarrow> fresh_order sn (snd (serialize sn types t))"
  using data_fresh_order [of sn t] by (auto simp: serialize_def split: prod.splits)

lemma resetChanges_fresh_order: "fresh_order sn (resetChanges t) = fresh_order sn t"
  by (rule fresh_order_cong) (simp_all add: resetChanges_def row_fields_def)

lemma clear_fresh_order: "fresh_order sn (clear t)"
  by (simp add: fresh_order_def clear_def resetChanges_def)

lemma get_row_fresh_order:
  assumes "consistent t" and "fresh_order sn t"
  shows "fresh_order sn (snd (get_row d t))"
proof (cases "find d t = Inr None")
  case True
  from add_fresh_order [OF assms add_after_find_None [OF assms(1) True]] True show ?thesis
    by (auto simp: get_row_def split: prod.splits sum.splits)
next
  case False
  with assms show ?thesis
    by (auto simp: get_row_def split: sum.splits option.splits)
qed

lemma load_each_fresh_order:
  "consistent t \<Longrightarrow> fresh_order sn t \<Longrightarrow> fst (load_each types recs t) \<noteq> Some DuplicateKey \<Longrightarrow>
   fresh_order sn (snd (load_each types recs t))"
proof (induction recs arbitrary: t)
  case Nil
  then show ?case by simp
next
  case (Cons ob obs)
  let ?a = "add (deserialize types (columns t) ob) t"
  show ?case
  proof (cases "fst ?a")
    case (Inl e)
    with Cons.prems(3) have "fst ?a \<noteq> Inl DuplicateKey"
      by (auto split: prod.splits sum.splits)
    from add_fresh_order [OF Cons.prems(1,2) this] Inl show ?thesis
      by (auto split: prod.splits sum.splits)
  next
    case (Inr row)
    then have nd: "fst ?a \<noteq> Inl DuplicateKey" by simp
    from Cons.prems(3) Inr have "fst (load_each types obs (snd ?a)) \<noteq> Some DuplicateKey"
      by (auto split: prod.splits sum.splits)
    from Cons.IH [OF add_consistent [OF Cons.prems(1) nd] add_fresh_order [OF Cons.prems(1,2) nd] this]
      Inr show ?thesis
      by (auto split: prod.splits sum.splits)
  qed
qed

lemma load_fresh_order:
  assumes "wf_schema t" and "fst (load types recs t) \<noteq> Inl DuplicateKey"
  shows "fresh_order sn (snd (load types recs t))"
proof -
  let ?l = "load_each types recs (clear t)"
  from assms(2) have "fst ?l \<noteq> Some DuplicateKey"
    by (auto simp: load_def split: prod.splits option.splits)
  from load_each_fresh_order [OF clear_consistent [OF assms(1)] clear_fresh_order this]
  have "fresh_order sn (snd ?l)" .
  then show ?thesis
    by (auto simp: load_def resetChanges_fresh_order split: prod.splits option.splits)
qed

lemma exec_fresh_order:
  "consistent t \<Longrightarrow> fresh_order sn t \<Longrightarrow> \<not> rejected types x t \<Longrightarrow>
   (x = Data \<or> x = Serialize \<longrightarrow> keys_ordered sn t) \<Longrightarrow>
   fresh_order sn (exec sn types x t)"
  by (cases x)
     (simp_all add: rejected_def add_fresh_order update_fresh_order delete_row_fresh_order
        get_row_fresh_order data_fresh_order serialize_fresh_order load_fresh_order
        clear_fresh_order resetChanges_fresh_order consistent_schema)

lemma run_fresh_order:
  "consistent t \<Longrightarrow> fresh_order sn t \<Longrightarrow> accepted sn types ops t \<Longrightarrow>
   comparable_reads sn types ops t \<Longrightarrow> fresh_order sn (run sn types ops t)"
  unfolding run_def
  by (induction ops arbitrary: t) (simp_all add: exec_fresh_order exec_consistent)

subsection \<open>Serialize, then load\<close>

lemma obj_eq_map: "distinct (map fst d) \<Longrightarrow> map (\<lambda>c. (c, get_prop d c)) (map fst d) = d"
proof (induction d)
  case Nil
  then show ?case by simp
next
  case (Cons p d)
  obtain k v where p: "p = (k, v)" by (cases p)
  from Cons.prems p have "\<And>c. c \<in> set (map fst d) \<Longrightarrow> get_prop (p # d) c = get_prop d c"
    by (auto simp: get_prop_def)
  then have "map (\<lambda>c. (c, get_prop (p # d) c)) (map fst d) = map (\<lambda>c. (c, get_prop d c)) (map fst d)"
    by (intro map_cong) auto
  with Cons p show ?case by (simp add: get_prop_def)
qed

lemma get_prop_serialize_row:
  "distinct (map fst cols) \<Longrightarrow> (c, ty) \<in> set cols \<Longrightarrow>
   get_prop (serialize_row types cols flds) c
     = apply_hook (serialize_hook (types ty)) (get_prop flds c)"
proof -
  assume d: "distinct (map fst cols)" and m: "(c, ty) \<in> set cols"
  have "map_of (map (\<lambda>(col, ty). (col, f col ty)) cols) c = Some (f c ty)" for f :: "string \<Rightarrow> string \<Rightarrow> val"
    using d m by (induction cols) (auto simp: rev_image_eqI)
  then show ?thesis by (simp add: get_prop_def serialize_row_def)
qed

lemma deserialize_serialize_row:
  assumes d: "distinct (map fst cols)" and n: "map fst flds = map fst cols"
    and inv: "\<forall>(c, ty) \<in> set cols.
        apply_hook (deserialize_hook (types ty))
          (apply_hook (serialize_hook (types ty)) (get_prop flds c)) = get_prop flds c"
  shows "deserialize types cols (serialize_row types cols flds) = flds"
proof -
  have "deserialize types cols (serialize_row types cols flds)
      = map (\<lambda>(c, ty). (c, get_prop flds c)) cols"
    unfolding deserialize_def
  proof (rule map_cong [OF refl])
    fix x assume x: "x \<in> set cols"
    obtain c ty where ct: "x = (c, ty)" by (cases x)
    from inv x ct have "apply_hook (deserialize_hook (types ty))
          (apply_hook (serialize_hook (types ty)) (get_prop flds c)) = get_prop flds c" by auto
    with x ct get_prop_serialize_row [OF d, of c ty types flds]
    show "(case x of (col, ty) \<Rightarrow>
             (col, apply_hook (deserialize_hook (types ty))
                     (get_prop (serialize_row types cols flds) col)))
        = (case x of (c, ty) \<Rightarrow> (c, get_prop flds c))"
      by simp
  qed
  also have "\<dots> = map (\<lambda>c. (c, get_prop flds c)) (map fst cols)"
    by (simp add: comp_def case_prod_beta)
  also have "\<dots> = flds" using obj_eq_map [of flds] d n by simp
  finally show ?thesis .
qed

lemma consistent_unique:
  assumes c: "consistent t" and "r \<in> set (all t)" "r' \<in> set (all t)"
    and "key_vals (key t) (row_fields t r) = key_vals (key t) (row_fields t r')"
  shows "r = r'"
proof -
  note ci = c [unfolded consistent_iff]
  let ?p = "key_vals (key t) (row_fields t r)"
  have len: "length ?p = length (key t)" by (simp add: key_vals_def)
  from ci len assms(2) have "ix_walk ?p (IxMap (index t)) = Some (IxRow r)" by blast
  moreover from ci len assms(3,4) have "ix_walk ?p (IxMap (index t)) = Some (IxRow r')" by metis
  ultimately show ?thesis by simp
qed

lemma consistent_free:
  assumes c: "consistent t"
    and free: "\<forall>r \<in> set (all t). key_vals (key t) (row_fields t r) \<noteq> p"
    and len: "length p = length (key t)"
  shows "ix_walk p (IxMap (index t)) = None"
proof (cases "ix_walk p (IxMap (index t))")
  case None
  then show ?thesis .
next
  case (Some x)
  from consistent_wf [OF c] len have "wf_ix (length p) (IxMap (index t))" by simp
  from walk_entries [OF this, of x] Some obtain r where
    "(p, r) \<in> set (ix_entries (IxMap (index t)))" by auto
  from consistent_sound [OF c this] free show ?thesis by auto
qed

lemma add_fresh_row:
  assumes c: "consistent t" and names: "map fst d = map fst (columns t)"
    and free: "\<forall>r \<in> set (all t). key_vals (key t) (row_fields t r) \<noteq> key_vals (key t) d"
  shows "\<exists>t'. add d t = (Inr (length (heap t)), t') \<and> consistent t'
           \<and> heap t' = heap t @ [d] \<and> all t' = all t @ [length (heap t)]
           \<and> columns t' = columns t \<and> key t' = key t"
proof -
  let ?K = "key t"
  let ?new = "length (heap t)"
  from c have ws: "wf_schema t" by (rule consistent_schema)
  then have dist: "distinct (map fst d)" using names by (simp add: wf_schema_def)
  from ws names have "list_all (\<lambda>c. has_prop c d \<and> c \<in> set (map fst (columns t))) ?K"
    by (auto simp: wf_schema_def list_all_iff has_own_names intro!: has_own_prop)
  then have "Row_keys (map fst (columns t)) ?K d = None" by (rule Row_keys_ok)
  with obj_eq_map [OF dist] names have nr: "new_Row d (map fst (columns t)) ?K = Inr d"
    by (simp add: new_Row_def)
  note f = new_Row_Inr [OF nr consistent_keys_declared [OF c]]
  have "ix_walk (key_vals ?K d) (IxMap (index t)) = None"
    by (rule consistent_free [OF c free]) (simp add: key_vals_def)
  with addToIndex_result [OF consistent_key [OF c] f(2) consistent_wf [OF c], of ?new]
  have "fst (addToIndex ?K d ?new (index t)) = None" by simp
  then obtain m where a: "addToIndex ?K d ?new (index t) = (None, m)"
    by (cases "addToIndex ?K d ?new (index t)") auto
  from c have fresh: "?new \<notin> set (all t)" unfolding consistent_iff by auto
  let ?t' = "t\<lparr>heap := heap t @ [d], all := all t @ [?new],
              added := set_add ?new (added t), index := m, needSort := True\<rparr>"
  from a fresh have r: "add d t = (Inr ?new, ?t')"
    by (simp add: add_unfold [OF nr] set_add_def)
  then have "fst (add d t) \<noteq> Inl DuplicateKey" by simp
  from add_consistent [OF c this] r have "consistent ?t'" by simp
  with r show ?thesis by simp
qed

lemma load_each_rows:
  "consistent t \<Longrightarrow> list_all (\<lambda>d. map fst d = map fst (columns t)) ds \<Longrightarrow>
   distinct (map (key_vals (key t)) ds) \<Longrightarrow>
   \<forall>r \<in> set (all t). key_vals (key t) (row_fields t r) \<notin> set (map (key_vals (key t)) ds) \<Longrightarrow>
   map (deserialize types (columns t)) recs = ds \<Longrightarrow>
   \<exists>t'. load_each types recs t = (None, t')
        \<and> map (row_fields t') (all t') = map (row_fields t) (all t) @ ds"
proof (induction recs arbitrary: t ds)
  case Nil
  then show ?case by simp
next
  case (Cons ob obs)
  let ?d = "deserialize types (columns t) ob"
  let ?ds' = "map (deserialize types (columns t)) obs"
  from Cons.prems(5) have ds: "ds = ?d # ?ds'" by auto
  from Cons.prems(2) ds have names: "map fst ?d = map fst (columns t)" by simp
  from Cons.prems(4) ds
  have free: "\<forall>r \<in> set (all t). key_vals (key t) (row_fields t r) \<noteq> key_vals (key t) ?d" by auto
  from add_fresh_row [OF Cons.prems(1) names free] obtain t1 where
    a: "add ?d t = (Inr (length (heap t)), t1)" and c1: "consistent t1"
    and h1: "heap t1 = heap t @ [?d]" and a1: "all t1 = all t @ [length (heap t)]"
    and s1: "columns t1 = columns t" "key t1 = key t" by blast
  from Cons.prems(1) have lt: "\<And>r. r \<in> set (all t) \<Longrightarrow> r < length (heap t)"
    unfolding consistent_iff by blast
  have rf: "row_fields t1 r = row_fields t r" if "r \<in> set (all t)" for r
    using lt [OF that] by (simp add: row_fields_def h1 nth_append)
  have rfn: "row_fields t1 (length (heap t)) = ?d"
    by (simp add: row_fields_def h1)
  have rows1: "map (row_fields t1) (all t1) = map (row_fields t) (all t) @ [?d]"
    using rf rfn by (simp add: a1)
  have "\<exists>t'. load_each types obs t1 = (None, t')
        \<and> map (row_fields t') (all t') = map (row_fields t1) (all t1) @ ?ds'"
  proof (rule Cons.IH [OF c1])
    from Cons.prems(2) ds show "list_all (\<lambda>d. map fst d = map fst (columns t1)) ?ds'"
      by (simp add: s1)
    from Cons.prems(3) ds show "distinct (map (key_vals (key t1)) ?ds')" by (simp add: s1)
    show "\<forall>r \<in> set (all t1). key_vals (key t1) (row_fields t1 r) \<notin> set (map (key_vals (key t1)) ?ds')"
    proof
      fix r assume "r \<in> set (all t1)"
      then have "r \<in> set (all t) \<or> r = length (heap t)" by (auto simp: a1)
      then show "key_vals (key t1) (row_fields t1 r) \<notin> set (map (key_vals (key t1)) ?ds')"
      proof
        assume m: "r \<in> set (all t)"
        with Cons.prems(4) ds show ?thesis by (simp add: s1 rf [OF m])
      next
        assume "r = length (heap t)"
        with Cons.prems(3) ds show ?thesis by (simp add: s1 rfn)
      qed
    qed
    show "map (deserialize types (columns t1)) obs = ?ds'" by (simp add: s1)
  qed
  then obtain t' where "load_each types obs t1 = (None, t')"
    and "map (row_fields t') (all t') = map (row_fields t1) (all t1) @ ?ds'" by blast
  with a rows1 ds show ?case by simp
qed

lemma data_perm:
  "set (fst (data sn t)) = set (all t) \<and> distinct (fst (data sn t)) = distinct (all t)
   \<and> heap (snd (data sn t)) = heap t \<and> columns (snd (data sn t)) = columns t"
  by (simp add: data_def Let_def set_sort_by distinct_sort_by)

lemma serialize_load_roundtrip:
  assumes c: "consistent t" and inv: "hooks_invert types t"
  shows "\<exists>t2. load types (fst (serialize sn types t)) (new_Table (columns t) (key t)) = (Inr (), t2)
           \<and> map (row_fields t2) (all t2) = map (row_fields t) (fst (data sn t))"
proof -
  let ?rows = "fst (data sn t)"
  let ?K = "key t"
  let ?ds = "map (row_fields t) ?rows"
  let ?T0 = "clear (new_Table (columns t) ?K)"
  note p = data_perm [of sn t]
  from c have dall: "distinct (all t)" by (simp add: consistent_def)
  with p have drows: "distinct ?rows" and srows: "set ?rows = set (all t)" by simp_all
  have ws: "wf_schema (new_Table (columns t) ?K)"
    using consistent_schema [OF c] by (simp add: wf_schema_def new_Table_def clear_def resetChanges_def)
  have c0: "consistent ?T0" by (rule clear_consistent [OF ws])
  have s0: "columns ?T0 = columns t" "key ?T0 = ?K" "all ?T0 = []"
    by (simp_all add: new_Table_def clear_def resetChanges_def)
  have rows_ok: "r \<in> set (all t) \<Longrightarrow> r < length (heap t) \<and> map fst (row_fields t r) = map fst (columns t)" for r
    using c unfolding consistent_iff by (auto simp: row_fields_def)
  have recs: "fst (serialize sn types t)
      = map (\<lambda>r. serialize_row types (columns t) (row_fields t r)) ?rows"
  proof -
    obtain rows t' where d: "data sn t = (rows, t')" by (cases "data sn t")
    with p have "heap t' = heap t" "columns t' = columns t" by simp_all
    then have "row_fields t' = row_fields t" by (intro ext) (simp add: row_fields_def)
    with d \<open>columns t' = columns t\<close> show ?thesis by (simp add: serialize_def)
  qed
  have des: "map (deserialize types (columns ?T0)) (fst (serialize sn types t)) = ?ds"
    unfolding recs s0 map_map comp_def
  proof (rule map_cong [OF refl])
    fix r assume "r \<in> set ?rows"
    with srows have live: "r \<in> set (all t)" by simp
    from consistent_schema [OF c] have d: "distinct (map fst (columns t))" by (simp add: wf_schema_def)
    from inv live have "\<forall>(c, ty) \<in> set (columns t).
        apply_hook (deserialize_hook (types ty))
          (apply_hook (serialize_hook (types ty)) (get_prop (row_fields t r) c))
        = get_prop (row_fields t r) c"
      by (simp add: hooks_invert_def)
    from deserialize_serialize_row [OF d _ this] rows_ok [OF live]
    show "deserialize types (columns t) (serialize_row types (columns t) (row_fields t r))
        = row_fields t r" by simp
  qed
  have inj: "inj_on (\<lambda>r. key_vals ?K (row_fields t r)) (set ?rows)"
    unfolding srows by (rule inj_onI) (rule consistent_unique [OF c])
  have "\<exists>t'. load_each types (fst (serialize sn types t)) ?T0 = (None, t')
        \<and> map (row_fields t') (all t') = map (row_fields ?T0) (all ?T0) @ ?ds"
  proof (rule load_each_rows [OF c0 _ _ _ des])
    from rows_ok srows show "list_all (\<lambda>d. map fst d = map fst (columns ?T0)) ?ds"
      by (simp add: list_all_iff s0)
    from drows inj show "distinct (map (key_vals (key ?T0)) ?ds)"
      by (simp add: s0 distinct_map comp_def)
    show "\<forall>r \<in> set (all ?T0). key_vals (key ?T0) (row_fields ?T0 r)
        \<notin> set (map (key_vals (key ?T0)) ?ds)" by (simp add: s0)
  qed
  then obtain t' where l: "load_each types (fst (serialize sn types t)) ?T0 = (None, t')"
    and r: "map (row_fields t') (all t') = ?ds" by (auto simp: s0)
  have "map (row_fields (resetChanges t')) (all (resetChanges t')) = map (row_fields t') (all t')"
    by (simp add: resetChanges_def row_fields_def)
  with l r show ?thesis by (simp add: load_def)
qed

subsection \<open>Tables built without a rejected add\<close>

lemma new_Table_fresh_order: "fresh_order sn (new_Table cols k)"
  by (simp add: new_Table_def clear_fresh_order)

lemma accepted_run_index:
  assumes "k \<noteq> []" "set k \<subseteq> set (map fst cols)" "distinct (map fst cols)"
    and "accepted sn types ops (new_Table cols k)"
  shows "set (ix_rows (IxMap (index (run sn types ops (new_Table cols k)))))
           = set (all (run sn types ops (new_Table cols k)))
    \<and> (\<forall>r \<in> set (all (run sn types ops (new_Table cols k))).
          find (row_fields (run sn types ops (new_Table cols k)) r)
               (run sn types ops (new_Table cols k)) = Inr (Some (IxRow r)))"
  by (rule index_reaches_live_rows)
     (rule run_consistent [OF new_Table_consistent [OF assms(1-3)] assms(4)])

lemma accepted_run_data:
  assumes "k \<noteq> []" "set k \<subseteq> set (map fst cols)" "distinct (map fst cols)"
    and "accepted sn types ops (new_Table cols k)"
    and "comparable_reads sn types ops (new_Table cols k)"
    and "keys_ordered sn (run sn types ops (new_Table cols k))"
  shows "sorted_wrt (key_le sn (run sn types ops (new_Table cols k)))
           (fst (data sn (run sn types ops (new_Table cols k))))
    \<and> set (fst (data sn (run sn types ops (new_Table cols k))))
        = set (all (run sn types ops (new_Table cols k)))"
proof -
  from run_fresh_order [OF new_Table_consistent [OF assms(1-3)] new_Table_fresh_order assms(4,5)]
  have "fresh_order sn (run sn types ops (new_Table cols k))" .
  from data_sorted [OF this assms(6)] show ?thesis by simp
qed

lemma data_three_rows:
  "map (row_fields table_three_rows) (fst (data nan table_three_rows))
     = [[(''k1'', VNum 1), (''k2'', VNum 2), (''foo'', VStr ''baz'')],
        [(''k1'', VNum 2), (''k2'', VNum 2), (''foo'', VStr ''bar'')],
        [(''k1'', VNum 2), (''k2'', VNum 3), (''foo'', VStr ''boz'')]]"
  by code_simp

lemma str_lt_irrefl: "\<not> str_lt a a"
  by (induction a) auto

lemma str_lt_trans: "str_lt a b \<Longrightarrow> str_lt b c \<Longrightarrow> str_lt a c"
proof (induction a b arbitrary: c rule: str_lt.induct)
  case (2 y ys)
  then show ?case by (cases c) auto
next
  case (4 x xs y ys)
  then show ?case by (cases c) (auto simp: less_trans)
qed auto

lemma of_char_nat_eq: "(of_char x :: nat) = of_char y \<Longrightarrow> x = y"
  by (metis char_of_char)

lemma str_lt_total: "\<not> str_lt a b \<Longrightarrow> \<not> str_lt b a \<Longrightarrow> a = b"
proof (induction a b rule: str_lt.induct)
  case (4 x xs y ys)
  then have "(of_char x :: nat) = of_char y" by auto
  then have "x = y" by (rule of_char_nat_eq)
  with 4 show ?case by auto
qed auto

lemma ordered_vals_strings:
  assumes "\<forall>v \<in> V. \<exists>s. v = VStr s"
  shows "ordered_vals sn V"
  unfolding ordered_vals_def
proof (intro ballI conjI impI)
  fix a b assume "a \<in> V" "b \<in> V" and l: "js_lt sn a b"
  with assms obtain x y where xy: "a = VStr x" "b = VStr y" by blast
  with l have "str_lt x y" by simp
  then have "\<not> str_lt y x" using str_lt_trans [of x y x] str_lt_irrefl [of x] by blast
  with xy show "\<not> js_lt sn b a" by simp
next
  fix a b assume "a \<in> V" "b \<in> V" and n: "\<not> js_lt sn a b" "\<not> js_lt sn b a"
  with assms obtain x y where xy: "a = VStr x" "b = VStr y" by blast
  with n have "x = y" by (simp add: str_lt_total)
  with xy show "a = b" by simp
next
  fix a b c assume "a \<in> V" "b \<in> V" "c \<in> V" and l: "js_lt sn a b" "js_lt sn b c"
  with assms obtain x y z where xyz: "a = VStr x" "b = VStr y" "c = VStr z" by blast
  with l have "str_lt x z" using str_lt_trans [of x y z] by simp
  with xyz show "js_lt sn a c" by simp
qed

subsection \<open>The rows read, in the order of the key\<close>

lemma ascending_Cons_eq:
  "get_prop a c = get_prop b c \<Longrightarrow> ascending sn (c # cs) a b = ascending sn cs a b"
  by simp

lemma ascending_Cons_neq:
  "get_prop a c \<noteq> get_prop b c \<Longrightarrow>
   ascending sn (c # cs) a b = js_lt sn (get_prop a c) (get_prop b c)"
  by simp

lemma sortFn_ascending:
  "\<forall>c \<in> set cols. ordered_vals sn {get_prop a c, get_prop b c} \<Longrightarrow>
   (sortFn sn cols a b \<le> 0) = ascending sn cols a b"
proof (induction cols)
  case Nil
  show ?case by simp
next
  case (Cons c cs)
  from Cons.prems have o: "ordered_vals sn {get_prop a c, get_prop b c}"
    by (simp del: ascending.simps sortFn.simps)
  from Cons.prems have "\<forall>c \<in> set cs. ordered_vals sn {get_prop a c, get_prop b c}"
    by (simp del: ascending.simps sortFn.simps)
  from Cons.IH [OF this] have ih: "(sortFn sn cs a b \<le> 0) = ascending sn cs a b" .
  from o have asym: "js_lt sn (get_prop a c) (get_prop b c) \<longrightarrow> \<not> js_lt sn (get_prop b c) (get_prop a c)"
    unfolding ordered_vals_def by blast
  from o have asym': "js_lt sn (get_prop b c) (get_prop a c) \<longrightarrow> \<not> js_lt sn (get_prop a c) (get_prop b c)"
    unfolding ordered_vals_def by blast
  from o have tot: "\<not> js_lt sn (get_prop a c) (get_prop b c) \<longrightarrow> \<not> js_lt sn (get_prop b c) (get_prop a c)
      \<longrightarrow> get_prop a c = get_prop b c"
    unfolding ordered_vals_def by blast
  from o have irr: "\<not> js_lt sn (get_prop a c) (get_prop a c)"
    unfolding ordered_vals_def by blast
  show ?case
  proof (cases "get_prop a c = get_prop b c")
    case True
    from irr True have n: "\<not> js_lt sn (get_prop a c) (get_prop b c)" "\<not> js_lt sn (get_prop b c) (get_prop a c)"
      by simp_all
    show ?thesis
      unfolding sortFn_Cons_le ascending_Cons_eq [OF True] using n ih by blast
  next
    case False
    show ?thesis
      unfolding sortFn_Cons_le ascending_Cons_neq [OF False] using asym asym' tot False by blast
  qed
qed

lemma key_le_ascending:
  assumes "keys_ordered sn t" and "a \<in> set (all t)" and "b \<in> set (all t)"
  shows "key_le sn t a b = ascending sn (key t) (row_fields t a) (row_fields t b)"
  unfolding key_le_def
proof (rule sortFn_ascending, rule ballI)
  fix c assume "c \<in> set (key t)"
  with assms(1) have o: "ordered_vals sn ((\<lambda>r. get_prop (row_fields t r) c) ` set (all t))"
    by (simp add: keys_ordered_def)
  have "{get_prop (row_fields t a) c, get_prop (row_fields t b) c}
      \<subseteq> (\<lambda>r. get_prop (row_fields t r) c) ` set (all t)"
    using assms(2,3) by auto
  with o show "ordered_vals sn {get_prop (row_fields t a) c, get_prop (row_fields t b) c}"
    unfolding ordered_vals_def by (meson subsetD)
qed

text \<open>
  C5, as the code has it. Take a table built from a fresh one by calls none of which
  is rejected for a duplicate key, whose key values are ordered by \<open><\<close> in each key
  column (numbers only, or strings only) at every read of \<open>data\<close> and at the end.
  Reading \<open>data\<close> returns the live rows, each once, ascending by the key columns in
  declared order, the first differing key column deciding. With columns
  \<open>k1, k2, foo\<close> and key \<open>k1, k2\<close>, adding \<open>(2, 2, 'bar')\<close>, \<open>(1, 2, 'baz')\<close>,
  \<open>(2, 3, 'boz')\<close> makes \<open>data\<close> yield \<open>(1, 2, 'baz')\<close>, \<open>(2, 2, 'bar')\<close>,
  \<open>(2, 3, 'boz')\<close>.
\<close>

theorem data_in_key_order:
  assumes "k \<noteq> []" and "set k \<subseteq> set (map fst cols)" and "distinct (map fst cols)"
    and "accepted sn types ops (new_Table cols k)"
    and "comparable_reads sn types ops (new_Table cols k)"
    and "t = run sn types ops (new_Table cols k)"
    and "keys_ordered sn t"
  shows "sorted_wrt (\<lambda>a b. ascending sn (key t) (row_fields t a) (row_fields t b)) (fst (data sn t))
    \<and> distinct (fst (data sn t)) \<and> set (fst (data sn t)) = set (all t)
    \<and> map (row_fields table_three_rows) (fst (data nan table_three_rows))
        = [[(''k1'', VNum 1), (''k2'', VNum 2), (''foo'', VStr ''baz'')],
           [(''k1'', VNum 2), (''k2'', VNum 2), (''foo'', VStr ''bar'')],
           [(''k1'', VNum 2), (''k2'', VNum 3), (''foo'', VStr ''boz'')]]"
proof -
  note c0 = new_Table_consistent [OF assms(1-3)]
  from run_consistent [OF c0 assms(4)] assms(6) have c: "consistent t" by simp
  from run_fresh_order [OF c0 new_Table_fresh_order assms(4,5)] assms(6)
  have "fresh_order sn t" by simp
  from data_sorted [OF this assms(7)]
  have s: "sorted_wrt (key_le sn t) (fst (data sn t))"
    and m: "set (fst (data sn t)) = set (all t)"
    and d: "distinct (fst (data sn t)) = distinct (all t)" by simp_all
  from c have "distinct (all t)" by (simp add: consistent_def)
  with d have d': "distinct (fst (data sn t))" by simp
  have "sorted_wrt (\<lambda>a b. ascending sn (key t) (row_fields t a) (row_fields t b)) (fst (data sn t))"
  proof (rule sorted_wrt_mono_rel [OF _ s])
    fix a b assume "a \<in> set (fst (data sn t))" "b \<in> set (fst (data sn t))" "key_le sn t a b"
    with m key_le_ascending [OF assms(7), of a b]
    show "ascending sn (key t) (row_fields t a) (row_fields t b)" by simp
  qed
  with d' m data_three_rows show ?thesis by simp
qed

theorem data_in_key_order_witness:
  "[''k1'', ''k2''] \<noteq> [] \<and> set [''k1'', ''k2''] \<subseteq> set (map fst cols_k1_k2_foo)
   \<and> distinct (map fst cols_k1_k2_foo)
   \<and> accepted nan no_hooks ops_three_rows (new_Table cols_k1_k2_foo [''k1'', ''k2''])
   \<and> comparable_reads nan no_hooks ops_three_rows (new_Table cols_k1_k2_foo [''k1'', ''k2''])
   \<and> keys_ordered nan table_three_rows
   \<and> sorted_wrt (\<lambda>a b. ascending nan (key table_three_rows)
          (row_fields table_three_rows a) (row_fields table_three_rows b))
        (fst (data nan table_three_rows))
   \<and> fst (data nan table_three_rows) = [1, 0, 2]"
proof -
  have h1: "[''k1'', ''k2''] \<noteq> []" by simp
  have h2: "set [''k1'', ''k2''] \<subseteq> set (map fst cols_k1_k2_foo)" by code_simp
  have h3: "distinct (map fst cols_k1_k2_foo)" by code_simp
  have a: "accepted nan no_hooks ops_three_rows (new_Table cols_k1_k2_foo [''k1'', ''k2''])"
    by code_simp
  have r: "comparable_reads nan no_hooks ops_three_rows (new_Table cols_k1_k2_foo [''k1'', ''k2''])"
    by code_simp
  have t: "table_three_rows = run nan no_hooks ops_three_rows (new_Table cols_k1_k2_foo [''k1'', ''k2''])"
    by (simp add: table_three_rows_def empty_k1_k2_def)
  have k: "keys_ordered nan table_three_rows"
    by code_simp
  have d: "fst (data nan table_three_rows) = [1, 0, 2]"
    by code_simp
  from data_in_key_order [OF h1 h2 h3 a r t k]
  have s: "sorted_wrt (\<lambda>a b. ascending nan (key table_three_rows)
          (row_fields table_three_rows a) (row_fields table_three_rows b))
        (fst (data nan table_three_rows))" by (rule conjunct1)
  from h1 h2 h3 a r k s d show ?thesis by (intro conjI)
qed

text \<open>
  For every table the property does not hold: \<open><\<close> and \<open>>\<close> are both false
  between the string \<open>'a'\<close> and the number \<open>1\<close>, so the comparator goes on to the
  next key column although the first one differs. Both tables below are built by two
  accepted calls of \<open>add\<close>; in the first, \<open>data\<close> puts \<open>1\<close> before \<open>'a'\<close>, in
  the second \<open>'a'\<close> before \<open>1\<close>: the second key column has decided, and the rows
  of the first table are not ascending in the first differing column.
\<close>

theorem data_mixed_keys_counterexample:
  "accepted nan no_hooks ops_mixed_keys empty_k1_k2
   \<and> accepted nan no_hooks ops_mixed_keys' empty_k1_k2
   \<and> map (\<lambda>r. key_vals (key table_mixed_keys) (row_fields table_mixed_keys r))
       (fst (data nan table_mixed_keys))
     = [[VNum 1, VNum 1], [VStr ''a'', VNum 2]]
   \<and> map (\<lambda>r. key_vals (key table_mixed_keys') (row_fields table_mixed_keys' r))
       (fst (data nan table_mixed_keys'))
     = [[VStr ''a'', VNum 1], [VNum 1, VNum 2]]
   \<and> \<not> ascending nan [''k1'', ''k2'']
         [(''k1'', VNum 1), (''k2'', VNum 1)] [(''k1'', VStr ''a''), (''k2'', VNum 2)]"
  by code_simp

section \<open>Properties of the table with secondary indexes\<close>

text \<open>
  C7, as the code has it. \<open>add\<close> on a unique index fails with \<open>KeyViolation\<close>,
  carrying the row being added, exactly when the derived key is already mapped, to
  whatever row; otherwise it maps the key to the row. \<open>get\<close> returns the row the
  derived key is mapped to, or nothing.
\<close>

theorem UniqueIndex_add_get:
  "(UniqueIndex_add fn f row m = Inl (KeyViolation row) \<longleftrightarrow> map_of m (fn f) \<noteq> None)
   \<and> (map_of m (fn f) = None \<longrightarrow>
        (\<exists>m'. UniqueIndex_add fn f row m = Inr m' \<and> map_of m' = (map_of m)(fn f \<mapsto> row)
              \<and> UniqueIndex_get fn f m' = Some row))
   \<and> (UniqueIndex_add fn f row m \<noteq> Inl (KeyViolation row) \<longrightarrow>
        (\<exists>m'. UniqueIndex_add fn f row m = Inr m'))
   \<and> UniqueIndex_get fn d m = map_of m (fn d)"
  by (auto simp: UniqueIndex_add_def UniqueIndex_get_def Let_def update_conv')

theorem UniqueIndex_add_get_witness:
  "map_of ([] :: (val \<times> rid) list) (by_id rec_id1_bar) = None
   \<and> (\<exists>m'. UniqueIndex_add by_id rec_id1_bar 0 [] = Inr m'
            \<and> UniqueIndex_get by_id rec_id1_bar m' = Some 0)"
  using UniqueIndex_add_get [of by_id rec_id1_bar 0 "[]"] by auto

text \<open>
  The key of row 0 is mapped to row 0 itself, not to a different row, and adding row 0
  fails with \<open>KeyViolation\<close> all the same.
\<close>

theorem UniqueIndex_add_same_row_counterexample:
  "map_of [(VNum 1, 0 :: rid)] (by_id rec_id1_bar) = Some 0
   \<and> UniqueIndex_add by_id rec_id1_bar 0 [(VNum 1, 0)] = Inl (KeyViolation 0)"
  by code_simp



end
